theory Spec2Isabelle
  imports Main "HOL-Library.Word"
begin

unbundle bit_operations_syntax

section \<open>Data model\<close>

text \<open>
  The two programs (\<^verbatim>\<open>server.go\<close>, \<^verbatim>\<open>client.go\<close>) stream tar archives through
  \<^verbatim>\<open>archive/tar\<close>. An archive is modelled as the sequence of entries that
  \<^verbatim>\<open>tr.Next()\<close> yields before \<^verbatim>\<open>io.EOF\<close>: the header it returns, paired with the
  bytes that reading \<^verbatim>\<open>tr\<close> delivers for that entry. An archive written through a
  \<^verbatim>\<open>tar.Writer\<close> is the sequence of headers passed to \<^verbatim>\<open>WriteHeader\<close>, each with
  the bytes written after it. Of the header, the fields the programs read or write
  (\<^verbatim>\<open>Typeflag\<close>, \<^verbatim>\<open>Name\<close>, \<^verbatim>\<open>Size\<close>) are kept together with three fields that
  stand for the metadata they only pass along.
\<close>

type_synonym byte = "8 word"
type_synonym uint32 = "32 word"

record tarhdr =
  Typeflag :: char
  Name :: string
  Linkname :: string
  Size :: int
  Mode :: int
  ModTime :: int

type_synonym entry = "tarhdr \<times> byte list"

text \<open>
  \<^verbatim>\<open>archive/tar\<close>'s reader delivers exactly \<^verbatim>\<open>Size\<close> bytes for an entry, and none for
  the header-only kinds (hard link, symlink, character and block device, directory,
  fifo), whatever their size field says; a negative size is a read error.
\<close>

definition isHeaderOnlyType :: "char \<Rightarrow> bool" where
  "isHeaderOnlyType flag =
     (flag = CHR ''1'' \<or> flag = CHR ''2'' \<or> flag = CHR ''3'' \<or>
      flag = CHR ''4'' \<or> flag = CHR ''5'' \<or> flag = CHR ''6'')"

definition reader_entry :: "entry \<Rightarrow> bool" where
  "reader_entry e =
     (0 \<le> Size (fst e) \<and>
      int (length (snd e)) = (if isHeaderOnlyType (Typeflag (fst e)) then 0 else Size (fst e)))"

text \<open>
  The ways a run stops without finishing its loop: \<^verbatim>\<open>log.Fatal\<close> (the process exits),
  an explicit \<^verbatim>\<open>panic\<close>, or a panic of the Go runtime.
\<close>

datatype abort =
    Fatal_unknown_hash_format       \<comment> \<open>client.go:214\<close>
  | Panic_nil_FileInfo              \<comment> \<open>client.go:247, \<^verbatim>\<open>fi.Size()\<close> on a nil \<^verbatim>\<open>FileInfo\<close>\<close>
  | Panic_cannot_read_local_file    \<comment> \<open>client.go:284\<close>
  | Panic_copy_local_file           \<comment> \<open>client.go:289\<close>
  | Panic_request_gzip              \<comment> \<open>server.go:49\<close>
  | Fatal_bitmap_out_of_bounds      \<comment> \<open>server.go:102\<close>
  | Panic_index_out_of_range        \<comment> \<open>server.go:106, \<^verbatim>\<open>requestedfilesbitmap[byteindex]\<close>\<close>
  | Read_error                      \<comment> \<open>a failed read of the source archive after its gzip header\<close>

section \<open>The server: index generation\<close>

text \<open>
  \<^verbatim>\<open>sha1.Size\<close>, and the loop of \<^verbatim>\<open>indextarhandler\<close> (server.go:162-201). The digest
  function (\<^verbatim>\<open>crypto/sha1\<close>) is a parameter.
\<close>

definition sha1_Size :: int where
  "sha1_Size = 20"

fun indextar_loop :: "(byte list \<Rightarrow> byte list) \<Rightarrow> entry list \<Rightarrow> entry list" where
  "indextar_loop sha1_Sum [] = []"
| "indextar_loop sha1_Sum ((hdr, payload) # rest) =
     (if Typeflag hdr = CHR ''0'' \<and> Size hdr > 0
      then (hdr\<lparr>Size := sha1_Size\<rparr>, sha1_Sum payload) # indextar_loop sha1_Sum rest
      else (hdr, if Size hdr > 0 then payload else []) # indextar_loop sha1_Sum rest)"

section \<open>The server: diff serving\<close>

text \<open>
  The test of server.go:106, \<^verbatim>\<open>(requestedfilesbitmap[byteindex]>>bitindex)&1 == 1\<close>,
  for an index inside the slice.
\<close>

definition bit_requested :: "byte list \<Rightarrow> uint32 \<Rightarrow> uint32 \<Rightarrow> bool" where
  "bit_requested requestedfilesbitmap byteindex bitindex =
     (drop_bit (unat bitindex) (requestedfilesbitmap ! unat byteindex) AND 1 = 1)"

text \<open>
  One turn of the loop of \<^verbatim>\<open>difftarhandler\<close> (server.go:83-123) on the state
  \<open>(regularfileindex, tarout)\<close>. The guard of line 100 compares with
  \<^verbatim>\<open>uint32(len(requestedfilesbitmap))\<close>; an index that passes it and is not inside the
  slice makes the Go runtime panic at line 106.
\<close>

definition difftar_entry ::
  "byte list \<Rightarrow> uint32 \<times> entry list \<Rightarrow> entry \<Rightarrow> abort + uint32 \<times> entry list" where
  "difftar_entry requestedfilesbitmap st e =
     (case st of (regularfileindex, tarout) \<Rightarrow>
      case e of (hdr, payload) \<Rightarrow>
        if Typeflag hdr = CHR ''0'' \<and> Size hdr > 0 then
          (let byteindex = regularfileindex div 8;
               bitindex = 7 - (regularfileindex mod 8);
               regularfileindex' = regularfileindex + 1
           in if byteindex > of_nat (length requestedfilesbitmap)
              then Inl Fatal_bitmap_out_of_bounds
              else if length requestedfilesbitmap \<le> unat byteindex
              then Inl Panic_index_out_of_range
              else if bit_requested requestedfilesbitmap byteindex bitindex
              then Inr (regularfileindex', tarout @ [(hdr, payload)])
              else Inr (regularfileindex', tarout))
        else Inr (regularfileindex, tarout))"

fun difftar_loop ::
  "byte list \<Rightarrow> uint32 \<times> entry list \<Rightarrow> entry list \<Rightarrow> abort + uint32 \<times> entry list" where
  "difftar_loop requestedfilesbitmap st [] = Inr st"
| "difftar_loop requestedfilesbitmap st (e # rest) =
     (case difftar_entry requestedfilesbitmap st e of
        Inl a \<Rightarrow> Inl a
      | Inr st' \<Rightarrow> difftar_loop requestedfilesbitmap st' rest)"

section \<open>The server: request handlers\<close>

text \<open>
  A file of the archive folder is given by what opening and reading it yields:
  \<open>NotGzip\<close> when \<^verbatim>\<open>gzip.NewReader\<close> fails on it, \<open>Tgz es\<close> when the tar reader yields
  the entries \<open>es\<close> and then \<^verbatim>\<open>io.EOF\<close>, \<open>TgzBroken es\<close> when a read fails after the
  entries \<open>es\<close>. A request body likewise: \<^verbatim>\<open>gzip.NewReader\<close> fails, \<^verbatim>\<open>ioutil.ReadAll\<close>
  fails, or the decompressed bytes. A handler ends in a response, with its status code
  (200 when the handler never calls \<^verbatim>\<open>WriteHeader\<close>) and either a message or the
  archive written, or it stops before the response is complete.
\<close>

datatype tgzfile = NotGzip | Tgz "entry list" | TgzBroken "entry list"

datatype gzbody = GzBadHeader | GzReadError | GzBytes "byte list"

type_synonym serverdisk = "string \<Rightarrow> tgzfile option"

record request =
  Method :: string
  URLPath :: string
  Body :: gzbody

datatype content = Message string | Archive "entry list"

datatype outcome = Response nat content | Aborted abort

definition StatusOK :: nat where "StatusOK = 200"
definition StatusNotFound :: nat where "StatusNotFound = 404"
definition StatusMethodNotAllowed :: nat where "StatusMethodNotAllowed = 405"
definition StatusInternalServerError :: nat where "StatusInternalServerError = 500"

definition tarfolder :: string where
  "tarfolder = ''/tmp/''"

text \<open>\<^verbatim>\<open>strings.LastIndex(s, "/")\<close>: the index of the last \<open>c\<close> in \<open>s\<close>, or \<open>-1\<close>.\<close>

primrec LastIndex :: "string \<Rightarrow> char \<Rightarrow> int" where
  "LastIndex [] c = - 1"
| "LastIndex (x # xs) c =
     (if 0 \<le> LastIndex xs c then LastIndex xs c + 1 else if x = c then 0 else - 1)"

text \<open>server.go:41 and server.go:135.\<close>

definition inputfname :: "string \<Rightarrow> string" where
  "inputfname path = tarfolder @ drop (nat (LastIndex path CHR ''/'' + 1)) path"

definition difftarhandler :: "serverdisk \<Rightarrow> request \<Rightarrow> outcome" where
  "difftarhandler disk r =
     (case Body r of
        GzBadHeader \<Rightarrow> Aborted Panic_request_gzip
      | GzReadError \<Rightarrow>
          Response StatusInternalServerError (Message ''500 - Cannot read request bitmap!'')
      | GzBytes requestedfilesbitmap \<Rightarrow>
          (case disk (inputfname (URLPath r)) of
             None \<Rightarrow> Response StatusNotFound (Message ''404 - File not found!'')
           | Some NotGzip \<Rightarrow> Response StatusNotFound (Message ''500 - cannot read tgz file!'')
           | Some (Tgz es) \<Rightarrow>
               (case difftar_loop requestedfilesbitmap (0, []) es of
                  Inl a \<Rightarrow> Aborted a
                | Inr st \<Rightarrow> Response StatusOK (Archive (snd st)))
           | Some (TgzBroken es) \<Rightarrow>
               (case difftar_loop requestedfilesbitmap (0, []) es of
                  Inl a \<Rightarrow> Aborted a
                | Inr st \<Rightarrow> Aborted Read_error)))"

definition indextarhandler ::
  "(byte list \<Rightarrow> byte list) \<Rightarrow> serverdisk \<Rightarrow> request \<Rightarrow> outcome" where
  "indextarhandler sha1_Sum disk r =
     (case disk (inputfname (URLPath r)) of
        None \<Rightarrow> Response StatusNotFound (Message ''404 - File not found!'')
      | Some NotGzip \<Rightarrow> Response StatusNotFound (Message ''500 - cannot read tgz file!'')
      | Some (Tgz es) \<Rightarrow> Response StatusOK (Archive (indextar_loop sha1_Sum es))
      | Some (TgzBroken es) \<Rightarrow> Aborted Read_error)"

definition handler :: "(byte list \<Rightarrow> byte list) \<Rightarrow> serverdisk \<Rightarrow> request \<Rightarrow> outcome" where
  "handler sha1_Sum disk r =
     (if Method r = ''GET'' then indextarhandler sha1_Sum disk r
      else if Method r = ''POST'' then difftarhandler disk r
      else Response StatusMethodNotAllowed (Message ''405 - unsupported method''))"

section \<open>The client: local files\<close>

text \<open>
  The client's file tree: a path names a regular file with its content, or another
  kind of node (a directory, a device) with the size \<^verbatim>\<open>os.Stat\<close> reports. A call can
  also fail for a reason outside the tree (permissions, an I/O error, a file removed
  by another process): \<open>faults call path\<close> says which calls on which paths do.
\<close>

datatype fnode = RegularFile "byte list" | OtherNode int

type_synonym filesystem = "string \<Rightarrow> fnode option"

datatype syscall = SysStat | SysOpen | SysCreate | SysRead

type_synonym faults = "syscall \<Rightarrow> string \<Rightarrow> bool"

record FileInfo =
  IsRegular :: bool
  FileSize :: int

definition os_Stat :: "faults \<Rightarrow> filesystem \<Rightarrow> string \<Rightarrow> FileInfo option" where
  "os_Stat flt fs name =
     (if flt SysStat name then None
      else case fs name of
             None \<Rightarrow> None
           | Some (RegularFile c) \<Rightarrow> Some \<lparr>IsRegular = True, FileSize = int (length c)\<rparr>
           | Some (OtherNode n) \<Rightarrow> Some \<lparr>IsRegular = False, FileSize = n\<rparr>)"

definition os_Open :: "faults \<Rightarrow> filesystem \<Rightarrow> string \<Rightarrow> fnode option" where
  "os_Open flt fs name = (if flt SysOpen name then None else fs name)"

text \<open>
  \<^verbatim>\<open>os.Create\<close> truncates or creates a regular file; it fails on a path that names a
  node of another kind.
\<close>

definition os_Create :: "faults \<Rightarrow> filesystem \<Rightarrow> string \<Rightarrow> filesystem option" where
  "os_Create flt fs name =
     (if flt SysCreate name then None
      else case fs name of
             Some (OtherNode n) \<Rightarrow> None
           | _ \<Rightarrow> Some (fs(name \<mapsto> RegularFile [])))"

text \<open>\<^verbatim>\<open>io.Copy\<close> out of an opened file: all of its bytes, or an error.\<close>

definition io_Copy_from :: "faults \<Rightarrow> filesystem \<Rightarrow> string \<Rightarrow> byte list option" where
  "io_Copy_from flt fs name =
     (if flt SysRead name then None
      else case fs name of
             Some (RegularFile c) \<Rightarrow> Some c
           | _ \<Rightarrow> None)"

text \<open>
  \<^verbatim>\<open>copyfile\<close> (client.go:43-71): whether it returned \<^verbatim>\<open>nil\<close>, and the tree it leaves.
  The source is read after the destination has been created.
\<close>

definition copyfile :: "faults \<Rightarrow> filesystem \<Rightarrow> string \<Rightarrow> string \<Rightarrow> bool \<times> filesystem" where
  "copyfile flt fs src dst =
     (case os_Stat flt fs src of
        None \<Rightarrow> (False, fs)
      | Some sourceFileStat \<Rightarrow>
          if IsRegular sourceFileStat then
            (case os_Open flt fs src of
               None \<Rightarrow> (False, fs)
             | Some source \<Rightarrow>
                 (case os_Create flt fs dst of
                    None \<Rightarrow> (False, fs)
                  | Some fs' \<Rightarrow>
                      (case io_Copy_from flt fs' src of
                         None \<Rightarrow> (False, fs')
                       | Some c \<Rightarrow> (True, fs'(dst \<mapsto> RegularFile c)))))
          else (False, fs))"

text \<open>\<^verbatim>\<open>hex.EncodeToString\<close>.\<close>

definition hextable :: string where
  "hextable = ''0123456789abcdef''"

definition hex_EncodeToString :: "byte list \<Rightarrow> string" where
  "hex_EncodeToString src =
     concat (map (\<lambda>v. [hextable ! unat (drop_bit 4 v), hextable ! unat (v AND 15)]) src)"

text \<open>\<^verbatim>\<open>getfilehash\<close> (client.go:73-88): \<open>None\<close> is an error return.\<close>

definition getfilehash ::
  "(byte list \<Rightarrow> byte list) \<Rightarrow> faults \<Rightarrow> filesystem \<Rightarrow> string \<Rightarrow> string option" where
  "getfilehash sha1_Sum flt fs src =
     (case os_Open flt fs src of
        None \<Rightarrow> None
      | Some filein \<Rightarrow>
          (case io_Copy_from flt fs src of
             None \<Rightarrow> None
           | Some c \<Rightarrow> Some (hex_EncodeToString (sha1_Sum c))))"

section \<open>The client: scanning the index\<close>

text \<open>
  The bitmap code of the scan. \<open>bitindex_of\<close> is client.go:206; \<open>mark_entry\<close> is
  client.go:262-269 on \<open>(bitmapbyte, requestefilesbitmap)\<close>.
\<close>

definition bitindex_of :: "uint32 \<Rightarrow> uint32" where
  "bitindex_of regularfileindex = 7 - (regularfileindex mod 8)"

definition mark_entry :: "uint32 \<Rightarrow> bool \<Rightarrow> byte \<times> byte list \<Rightarrow> byte \<times> byte list" where
  "mark_entry bitindex uselocalfile st =
     (case st of (bitmapbyte, buf) \<Rightarrow>
        let bitmapbyte' = (if uselocalfile then bitmapbyte
                           else bitmapbyte OR push_bit (unat bitindex) 1)
        in if bitindex = 0 then (0, buf @ [bitmapbyte']) else (bitmapbyte', buf))"

record scanstate =
  regularfileindex :: uint32
  bitmapbyte :: byte
  requestefilesbitmap :: "byte list"
  missingfiles :: uint32
  trout :: "entry list"
  localfs :: filesystem

text \<open>
  One turn of the loop of \<^verbatim>\<open>main\<close> (client.go:193-310) on an entry of the index.
  \<^verbatim>\<open>tr.Read(hash)\<close> is taken to fill the 20-byte buffer with the first bytes of the
  entry, as many as the entry has; fewer than 20 is the fatal error of line 214. When
  \<^verbatim>\<open>os.Stat\<close> fails at line 237, \<^verbatim>\<open>fi\<close> is nil and line 247 calls \<^verbatim>\<open>fi.Size()\<close>
  on it. The scratch file is read by \<^verbatim>\<open>getfilehash\<close> and again at lines 282-287;
  \<^verbatim>\<open>os.Remove\<close> takes it out of the tree.
\<close>

definition scan_entry ::
  "(byte list \<Rightarrow> byte list) \<Rightarrow> faults \<Rightarrow> string \<Rightarrow> scanstate \<Rightarrow> entry \<Rightarrow> abort + scanstate" where
  "scan_entry sha1_Sum flt tgzref s e =
     (case e of (hdr, payload) \<Rightarrow>
      if Typeflag hdr = CHR ''0'' \<and> Size hdr > 0 then
        (let bitindex = bitindex_of (regularfileindex s);
             s = s\<lparr>regularfileindex := regularfileindex s + 1\<rparr>
         in if int (length payload) < sha1_Size then Inl Fatal_unknown_hash_format
            else
              (let hash = take (nat sha1_Size) payload;
                   hashstr = hex_EncodeToString hash;
                   tmpfilename = ''/tmp/'' @ hashstr @ ''.tmp'';
                   copied = copyfile flt (localfs s) (tgzref @ Name hdr) tmpfilename;
                   fs = snd copied
               in case (if fst copied
                        then (case os_Stat flt fs tmpfilename of
                                None \<Rightarrow> Inl Panic_nil_FileInfo
                              | Some fi \<Rightarrow> Inr (True, hdr\<lparr>Size := FileSize fi\<rparr>))
                        else Inr (False, hdr)) of
                    Inl a \<Rightarrow> Inl a
                  | Inr sized \<Rightarrow>
                      (let hdr = snd sized;
                           uselocalfile =
                             (if fst sized
                              then (case getfilehash sha1_Sum flt fs tmpfilename of
                                      None \<Rightarrow> False
                                    | Some filehashstr \<Rightarrow> filehashstr = hashstr)
                              else False);
                           marked = mark_entry bitindex uselocalfile
                                      (bitmapbyte s, requestefilesbitmap s);
                           s = s\<lparr>bitmapbyte := fst marked, requestefilesbitmap := snd marked\<rparr>
                       in if uselocalfile then
                            (case os_Open flt fs tmpfilename of
                               None \<Rightarrow> Inl Panic_cannot_read_local_file
                             | Some fi \<Rightarrow>
                                 (case io_Copy_from flt fs tmpfilename of
                                    None \<Rightarrow> Inl Panic_copy_local_file
                                  | Some c \<Rightarrow>
                                      Inr (s\<lparr>trout := trout s @ [(hdr, c)],
                                             localfs := fs(tmpfilename := None)\<rparr>)))
                          else Inr (s\<lparr>missingfiles := missingfiles s + 1,
                                      localfs := fs(tmpfilename := None)\<rparr>))))
      else Inr (s\<lparr>trout := trout s @ [(hdr, if Size hdr > 0 then payload else [])]\<rparr>))"

fun scan_loop ::
  "(byte list \<Rightarrow> byte list) \<Rightarrow> faults \<Rightarrow> string \<Rightarrow> scanstate \<Rightarrow> entry list \<Rightarrow> abort + scanstate" where
  "scan_loop sha1_Sum flt tgzref s [] = Inr s"
| "scan_loop sha1_Sum flt tgzref s (e # rest) =
     (case scan_entry sha1_Sum flt tgzref s e of
        Inl a \<Rightarrow> Inl a
      | Inr s' \<Rightarrow> scan_loop sha1_Sum flt tgzref s' rest)"

text \<open>
  The state before the loop (client.go:184-191), and the scan as a whole: the loop,
  then the write of the current byte at client.go:313.
\<close>

definition scan_init :: "filesystem \<Rightarrow> scanstate" where
  "scan_init fs =
     \<lparr>regularfileindex = 0, bitmapbyte = 0, requestefilesbitmap = [],
      missingfiles = 0, trout = [], localfs = fs\<rparr>"

definition scan_index ::
  "(byte list \<Rightarrow> byte list) \<Rightarrow> faults \<Rightarrow> string \<Rightarrow> filesystem \<Rightarrow> entry list \<Rightarrow> abort + scanstate" where
  "scan_index sha1_Sum flt tgzref fs index =
     (case scan_loop sha1_Sum flt tgzref (scan_init fs) index of
        Inl a \<Rightarrow> Inl a
      | Inr s \<Rightarrow> Inr (s\<lparr>requestefilesbitmap := requestefilesbitmap s @ [bitmapbyte s]\<rparr>))"

text \<open>
  The bitmap code alone, run on the outcomes of the regular files in order
  (\<open>True\<close>: the file is missing and is requested).
\<close>

fun pack_loop :: "uint32 \<Rightarrow> byte \<times> byte list \<Rightarrow> bool list \<Rightarrow> byte list" where
  "pack_loop idx st [] = snd st @ [fst st]"
| "pack_loop idx st (missing # rest) =
     pack_loop (idx + 1) (mark_entry (bitindex_of idx) (\<not> missing) st) rest"

definition pack :: "bool list \<Rightarrow> byte list" where
  "pack missing = pack_loop 0 (0, []) missing"

section \<open>Notions of the specification\<close>

text \<open>
  The bitmap codec's \<^verbatim>\<open>unpack(bytes, i)\<close>: bit \<open>7 - i mod 8\<close> of byte \<open>i div 8\<close>, with the
  counter value as a natural number.
\<close>

definition unpack :: "byte list \<Rightarrow> nat \<Rightarrow> bool" where
  "unpack bytes i = (drop_bit (7 - i mod 8) (bytes ! (i div 8)) AND 1 = 1)"

text \<open>
  The entries that consume a value of the regular-file counter, the counter value of
  the entry at position \<open>i\<close> of an archive (the number of such entries before it), and
  the entries a bitmap asks for, in the order of the archive.
\<close>

definition counted :: "entry \<Rightarrow> bool" where
  "counted e = (Typeflag (fst e) = CHR ''0'' \<and> Size (fst e) > 0)"

definition counter_at :: "entry list \<Rightarrow> nat \<Rightarrow> nat" where
  "counter_at a i = length (filter counted (take i a))"

definition requested_entries :: "byte list \<Rightarrow> entry list \<Rightarrow> entry list" where
  "requested_entries bm a =
     map (\<lambda>i. a ! i) (filter (\<lambda>i. counted (a ! i) \<and> unpack bm (counter_at a i)) [0..<length a])"

text \<open>The part of a request path after its last \<open>/\<close>.\<close>

definition final_segment :: "string \<Rightarrow> string" where
  "final_segment path = rev (takeWhile (\<lambda>c. c \<noteq> CHR ''/'') (rev path))"

text \<open>
  A name lies directly in a folder when it is the folder's name followed by a file
  name: not empty, without \<open>/\<close>, and neither \<open>.\<close> nor \<open>..\<close>.
\<close>

definition directly_in :: "string \<Rightarrow> string \<Rightarrow> bool" where
  "directly_in folder name =
     (take (length folder) name = folder \<and>
      drop (length folder) name \<noteq> [] \<and>
      drop (length folder) name \<noteq> ''.'' \<and>
      drop (length folder) name \<noteq> ''..'' \<and>
      CHR ''/'' \<notin> set (drop (length folder) name))"

text \<open>
  The invariant of the bitmap code after \<open>n\<close> outcomes \<open>pre\<close>: the written bytes hold
  the outcomes of full groups of eight, the current byte those of the group in progress,
  most significant bit first, and its other bits are zero.
\<close>

definition bm_inv :: "nat \<Rightarrow> bool list \<Rightarrow> byte \<times> byte list \<Rightarrow> bool" where
  "bm_inv n pre st =
     (length pre = n \<and> 8 * length (snd st) \<le> n \<and> n < 8 * length (snd st) + 8 \<and>
      (\<forall>i < 8 * length (snd st). unpack (snd st) i = pre ! i) \<and>
      (\<forall>j < 8. bit (fst st) (7 - j) =
         (8 * length (snd st) + j < n \<and> pre ! (8 * length (snd st) + j))))"

section \<open>A worked example\<close>

text \<open>
  The archive of the specification's scenario: a directory \<^verbatim>\<open>a/\<close>, and two files
  \<^verbatim>\<open>a/x\<close> and \<^verbatim>\<open>a/y\<close> holding \<^verbatim>\<open>AAAA\<close> and \<^verbatim>\<open>BBBB\<close>; a reference tree
  that has \<^verbatim>\<open>a/x\<close> and lacks \<^verbatim>\<open>a/y\<close>. \<open>digest0\<close> stands in for SHA-1 where a
  definition is run on these data: it pads or cuts its input to 20 bytes. \<open>hash_x\<close>,
  \<open>hash_y\<close> are its values on the two files, \<open>tmp_x\<close> is the scratch file the client
  names after \<open>hash_x\<close>, and \<open>scanned\<close> is the client's state after the three entries.
  \<open>stat_fault\<close> makes \<^verbatim>\<open>os.Stat\<close> fail on that scratch file, as it does when the file
  is removed between the copy and the call.
\<close>

definition digest0 :: "byte list \<Rightarrow> byte list" where
  "digest0 bs = take 20 (bs @ replicate 20 0)"

definition hdr_dir :: tarhdr where
  "hdr_dir = \<lparr>Typeflag = CHR ''5'', Name = ''a/'', Linkname = [], Size = 0, Mode = 493, ModTime = 0\<rparr>"

definition hdr_x :: tarhdr where
  "hdr_x = \<lparr>Typeflag = CHR ''0'', Name = ''a/x'', Linkname = [], Size = 4, Mode = 420, ModTime = 0\<rparr>"

definition hdr_y :: tarhdr where
  "hdr_y = \<lparr>Typeflag = CHR ''0'', Name = ''a/y'', Linkname = [], Size = 4, Mode = 420, ModTime = 0\<rparr>"

definition example_archive :: "entry list" where
  "example_archive = [(hdr_dir, []), (hdr_x, [65, 65, 65, 65]), (hdr_y, [66, 66, 66, 66])]"

definition hash_x :: "byte list" where
  "hash_x = [65, 65, 65, 65, 0, 0, 0, 0, 0, 0, 0, 0, 0, 0, 0, 0, 0, 0, 0, 0]"

definition hash_y :: "byte list" where
  "hash_y = [66, 66, 66, 66, 0, 0, 0, 0, 0, 0, 0, 0, 0, 0, 0, 0, 0, 0, 0, 0]"

definition tmp_x :: string where
  "tmp_x = ''/tmp/4141414100000000000000000000000000000000.tmp''"

definition no_faults :: faults where
  "no_faults call path = False"

definition stat_fault :: faults where
  "stat_fault call path =
     (call = SysStat \<and> path = ''/tmp/4141414100000000000000000000000000000000.tmp'')"

definition example_fs :: filesystem where
  "example_fs = [''/ref/a/x'' \<mapsto> RegularFile [65, 65, 65, 65]]"

definition scanned :: scanstate where
  "scanned = \<lparr>regularfileindex = 2, bitmapbyte = 64, requestefilesbitmap = [],
      missingfiles = 1, trout = [(hdr_dir, []), (hdr_x, [65, 65, 65, 65])],
      localfs = example_fs\<rparr>"

section \<open>The bitmap codec\<close>

lemma unpack_bit: "unpack bytes i = bit (bytes ! (i div 8)) (7 - i mod 8)"
  by (simp add: unpack_def bit_word_iff_drop_bit_and)

lemma div8_eq: "8 * q \<le> i \<Longrightarrow> i < 8 * q + 8 \<Longrightarrow> i div 8 = (q::nat)"
  by (rule div_nat_eqI) simp_all

lemma mod8_eq: "8 * q \<le> i \<Longrightarrow> i < 8 * q + 8 \<Longrightarrow> i mod 8 = i - 8 * (q::nat)"
  using div8_eq [of q i] minus_mult_div_eq_mod [of i 8] by simp

lemma unpack_at:
  "8 * q \<le> i \<Longrightarrow> i < 8 * q + 8 \<Longrightarrow> unpack bytes i = bit (bytes ! q) (7 - (i - 8 * q))"
  by (simp add: unpack_bit div8_eq mod8_eq)

lemma unat_mod8: "unat ((of_nat n :: uint32) mod 8) = n mod 8"
proof -
  have "unat ((of_nat n :: uint32) mod 8) = unat (of_nat n :: uint32) mod 8"
    by (simp add: unat_mod)
  also have "\<dots> = (n mod 2 ^ 32) mod 8"
    by (simp add: unat_of_nat)
  also have "\<dots> = n mod 8"
    by (simp add: mod_mod_cancel)
  finally show ?thesis .
qed

lemma unat_bitindex_of: "unat (bitindex_of (of_nat n)) = 7 - n mod 8"
proof -
  have le: "(of_nat n :: uint32) mod 8 \<le> 7"
    by (simp add: word_le_nat_alt unat_mod8)
  have "unat (7 - (of_nat n :: uint32) mod 8) = unat (7 :: uint32) - unat ((of_nat n :: uint32) mod 8)"
    using le by (simp add: unat_sub)
  then show ?thesis
    by (simp add: bitindex_of_def unat_mod8)
qed

lemma sub7_zero: "k < 8 \<Longrightarrow> (7 - k = 0) = (k = (7::nat))"
  by arith

lemma sub7_inj: "j < 8 \<Longrightarrow> k < 8 \<Longrightarrow> (7 - j = 7 - k) = (j = (k::nat))"
  by arith

lemma bitindex_of_zero: "(bitindex_of (of_nat n) = 0) = (n mod 8 = 7)"
proof -
  have "(bitindex_of (of_nat n) = 0) = (unat (bitindex_of (of_nat n)) = 0)"
    by (simp add: unat_eq_0)
  also have "\<dots> = (n mod 8 = 7)"
    by (simp only: unat_bitindex_of) (rule sub7_zero, simp)
  finally show ?thesis .
qed

lemma marked_bits:
  assumes "j < 8" and "k < 8"
  shows "bit (if m then (b::byte) OR push_bit (7 - k) 1 else b) (7 - j) =
           (bit b (7 - j) \<or> (m \<and> j = k))"
  using sub7_inj [OF assms] by (auto simp add: bit_or_iff bit_exp_iff)

lemma mark_entry_eq:
  "mark_entry (bitindex_of (of_nat n)) (\<not> m) (b, buf) =
     (if n mod 8 = 7
      then (0, buf @ [if m then b OR push_bit (7 - n mod 8) 1 else b])
      else (if m then b OR push_bit (7 - n mod 8) 1 else b, buf))"
  by (simp add: mark_entry_def Let_def bitindex_of_zero unat_bitindex_of)

lemma bm_inv_init: "bm_inv 0 [] (0, [])"
  by (simp add: bm_inv_def)

lemma bm_inv_step:
  assumes "bm_inv n pre st"
  shows "bm_inv (Suc n) (pre @ [m]) (mark_entry (bitindex_of (of_nat n)) (\<not> m) st)"
proof -
  obtain b buf where st: "st = (b, buf)" by (cases st)
  define q where "q = length buf"
  define k where "k = n - 8 * q"
  define b' where "b' = (if m then b OR push_bit (7 - k) 1 else b)"
  have len: "length pre = n" and lo: "8 * q \<le> n" and hi: "n < 8 * q + 8"
    and old: "\<And>i. i < 8 * q \<Longrightarrow> unpack buf i = pre ! i"
    and cur: "\<And>j. j < 8 \<Longrightarrow> bit b (7 - j) = (8 * q + j < n \<and> pre ! (8 * q + j))"
    using assms by (simp_all add: bm_inv_def st q_def)
  have k8: "k < 8" and n_eq: "n = 8 * q + k"
    using lo hi by (simp_all add: k_def)
  have nmod: "n mod 8 = k"
    using lo hi by (simp add: mod8_eq k_def)
  have new: "bit b' (7 - j) = (bit b (7 - j) \<or> (m \<and> j = k))" if "j < 8" for j
    unfolding b'_def using that k8 by (rule marked_bits)
  have new': "bit b' (7 - j) = (8 * q + j < Suc n \<and> (pre @ [m]) ! (8 * q + j))" if "j < 8" for j
  proof (cases "j = k")
    case True
    then have "8 * q + j = length pre" by (simp add: len n_eq)
    then show ?thesis
      using new [OF that] cur [OF that] True by (simp add: n_eq)
  next
    case False
    show ?thesis
    proof (cases "j < k")
      case True
      then have "8 * q + j < length pre" by (simp add: len n_eq)
      then show ?thesis
        using new [OF that] cur [OF that] False True by (simp add: nth_append n_eq)
    next
      case False
      then have "\<not> 8 * q + j < Suc n" using \<open>j \<noteq> k\<close> by (simp add: n_eq)
      then show ?thesis
        using new [OF that] cur [OF that] \<open>j \<noteq> k\<close> by simp
    qed
  qed
  have old': "unpack buf i = (pre @ [m]) ! i" if "i < 8 * q" for i
  proof -
    have "i < length pre" using that lo by (simp add: len)
    then show ?thesis using old [OF that] by (simp add: nth_append)
  qed
  have me: "mark_entry (bitindex_of (of_nat n)) (\<not> m) st =
              (if k = 7 then (0, buf @ [b']) else (b', buf))"
    by (simp add: st mark_entry_eq nmod b'_def)
  show ?thesis
  proof (cases "k = 7")
    case True
    have bits: "unpack (buf @ [b']) i = (pre @ [m]) ! i" if "i < 8 * q + 8" for i
    proof (cases "i < 8 * q")
      case True
      then have "i div 8 < length buf"
        by (simp add: q_def div_less_iff_less_mult mult.commute)
      then show ?thesis
        using old' [OF True] by (simp add: unpack_bit nth_append)
    next
      case False
      then have l: "8 * q \<le> i" by simp
      define j where "j = i - 8 * q"
      have j8: "j < 8" and i_eq: "i = 8 * q + j"
        using that l by (simp_all add: j_def)
      have "unpack (buf @ [b']) i = bit b' (7 - j)"
        by (simp add: unpack_at [OF l that] j_def) (simp add: q_def)
      also have "\<dots> = (8 * q + j < Suc n \<and> (pre @ [m]) ! (8 * q + j))"
        by (rule new' [OF j8])
      also have "\<dots> = (pre @ [m]) ! i"
        using j8 \<open>k = 7\<close> by (simp add: n_eq i_eq)
      finally show ?thesis .
    qed
    show ?thesis
      unfolding me using bits True
      by (simp add: bm_inv_def len n_eq q_def)
  next
    case False
    show ?thesis
      unfolding me using old' new' False k8
      by (simp add: bm_inv_def len n_eq q_def)
  qed
qed


lemma pack_loop_inv:
  "bm_inv n pre st \<Longrightarrow>
     \<exists>st'. pack_loop (of_nat n) st bs = snd st' @ [fst st'] \<and> bm_inv (n + length bs) (pre @ bs) st'"
proof (induction bs arbitrary: n pre st)
  case Nil
  then show ?case by auto
next
  case (Cons m bs)
  have "bm_inv (Suc n) (pre @ [m]) (mark_entry (bitindex_of (of_nat n)) (\<not> m) st)"
    using Cons.prems by (rule bm_inv_step)
  from Cons.IH [OF this] show ?case
    by (simp add: add.commute)
qed

lemma bm_inv_length:
  assumes "bm_inv n pre st"
  shows "length (snd st @ [fst st]) = n div 8 + 1"
proof -
  have "8 * length (snd st) \<le> n" and "n < 8 * length (snd st) + 8"
    using assms by (simp_all add: bm_inv_def)
  then have "n div 8 = length (snd st)"
    by (rule div8_eq)
  then show ?thesis by simp
qed

lemma bm_inv_unpack:
  assumes "bm_inv n pre st" and "i < 8 * length (snd st @ [fst st])"
  shows "unpack (snd st @ [fst st]) i = (i < n \<and> pre ! i)"
proof -
  obtain b buf where st: "st = (b, buf)" by (cases st)
  define q where "q = length buf"
  have lo: "8 * q \<le> n" and hi: "n < 8 * q + 8"
    and old: "\<And>i. i < 8 * q \<Longrightarrow> unpack buf i = pre ! i"
    and cur: "\<And>j. j < 8 \<Longrightarrow> bit b (7 - j) = (8 * q + j < n \<and> pre ! (8 * q + j))"
    using assms(1) by (simp_all add: bm_inv_def st q_def)
  have i8: "i < 8 * q + 8"
    using assms(2) by (simp add: st q_def)
  show ?thesis
  proof (cases "i < 8 * q")
    case True
    then have "i div 8 < length buf"
      by (simp add: q_def div_less_iff_less_mult mult.commute)
    moreover have "i < n" using True lo by simp
    ultimately show ?thesis
      using old [OF True] by (simp add: st unpack_bit nth_append)
  next
    case False
    then have l: "8 * q \<le> i" by simp
    define j where "j = i - 8 * q"
    have j8: "j < 8" and i_eq: "i = 8 * q + j"
      using i8 l by (simp_all add: j_def)
    have "unpack (buf @ [b]) i = bit b (7 - j)"
      by (simp add: unpack_at [OF l i8] j_def) (simp add: q_def)
    also have "\<dots> = (8 * q + j < n \<and> pre ! (8 * q + j))"
      by (rule cur [OF j8])
    finally show ?thesis
      by (simp add: st i_eq)
  qed
qed

lemma pack_inv: "\<exists>st. pack bs = snd st @ [fst st] \<and> bm_inv (length bs) bs st"
  using pack_loop_inv [OF bm_inv_init, of bs] by (simp add: pack_def)

lemma length_pack: "length (pack bs) = length bs div 8 + 1"
  using pack_inv [of bs] bm_inv_length by auto

lemma unpack_pack: "i < 8 * length (pack bs) \<Longrightarrow> unpack (pack bs) i = (i < length bs \<and> bs ! i)"
  using pack_inv [of bs] bm_inv_unpack by auto

lemma lt_length_pack: "i < length bs \<Longrightarrow> i < 8 * length (pack bs)"
proof -
  assume "i < length bs"
  moreover have "length bs < 8 * (length bs div 8 + 1)"
    using dividend_less_times_div [of 8 "length bs"] by simp
  ultimately show ?thesis by (simp add: length_pack)
qed

lemma unat_div8: "i < 2 ^ 32 \<Longrightarrow> unat ((of_nat i :: uint32) div 8) = i div 8"
  by (simp add: unat_div unat_of_nat)

lemma bit_requested_unpack:
  "i < 2 ^ 32 \<Longrightarrow> bit_requested bm (of_nat i div 8) (7 - of_nat i mod 8) = unpack bm i"
  using unat_bitindex_of [of i]
  by (simp add: bit_requested_def unpack_def unat_div8 bitindex_of_def)

text \<open>
  C2. Round trip of the bitmap: for every sequence of booleans and every position \<open>i\<close>
  in it, bit \<open>7 - i mod 8\<close> of byte \<open>i div 8\<close> of the bitmap the client packs is the
  \<open>i\<close>-th boolean, and the test the server makes at counter value \<open>i\<close> reads the same bit.
\<close>

theorem bitmap_roundtrip:
  assumes "i < length bs"
  shows "i div 8 < length (pack bs) \<and> unpack (pack bs) i = bs ! i \<and>
         (i < 2 ^ 32 \<longrightarrow>
            unat ((of_nat i :: uint32) div 8) = i div 8 \<and>
            bit_requested (pack bs) (of_nat i div 8) (7 - of_nat i mod 8) = bs ! i)"
proof -
  have "i < 8 * length (pack bs)"
    using assms by (rule lt_length_pack)
  then have "i div 8 < length (pack bs)" and "unpack (pack bs) i = bs ! i"
    using assms by (simp_all add: unpack_pack div_less_iff_less_mult mult.commute)
  then show ?thesis
    by (simp add: bit_requested_unpack unat_div8)
qed

theorem bitmap_roundtrip_witness:
  "(9::nat) < length [False, True, False, False, False, False, False, False, False, True] \<and>
   unpack (pack [False, True, False, False, False, False, False, False, False, True]) 9 \<and>
   bit_requested (pack [False, True, False, False, False, False, False, False, False, True])
     (of_nat 9 div 8) (7 - of_nat 9 mod 8)"
proof -
  have h: "(9::nat) < length [False, True, False, False, False, False, False, False, False, True]"
    by simp
  from bitmap_roundtrip [OF h] show ?thesis
    by simp
qed

text \<open>
  C8. Size of the bitmap: for a sequence of \<open>N\<close> booleans the client writes
  \<open>N div 8 + 1\<close> bytes, a byte for every full group of eight and then always the
  current byte; every bit past the \<open>N\<close>-th is zero. So \<open>N = 0\<close> gives one zero
  byte, and a multiple of eight gives a last byte that is all zero.
\<close>

theorem bitmap_size:
  "length (pack bs) = length bs div 8 + 1 \<and>
   (\<forall>i. length bs \<le> i \<and> i < 8 * length (pack bs) \<longrightarrow> \<not> unpack (pack bs) i)"
  by (simp add: length_pack unpack_pack)

theorem bitmap_size_witness:
  "length (pack [True, True, True]) = 1 \<and> \<not> unpack (pack [True, True, True]) 5"
  using bitmap_size [of "[True, True, True]"] by simp

theorem bitmap_size_counterexample:
  "length (pack [True, False, False, False, False, False, False, True])
     \<noteq> max 1 ((length [True, False, False, False, False, False, False, True] + 7) div 8)"
  by (simp add: pack_def mark_entry_def bitindex_of_def)

section \<open>The worked example, evaluated\<close>

lemma example_digest:
  "digest0 [65, 65, 65, 65] = [65, 65, 65, 65, 0, 0, 0, 0, 0, 0, 0, 0, 0, 0, 0, 0, 0, 0, 0, 0]"
  "digest0 [66, 66, 66, 66] = [66, 66, 66, 66, 0, 0, 0, 0, 0, 0, 0, 0, 0, 0, 0, 0, 0, 0, 0, 0]"
  by (simp_all add: digest0_def eval_nat_numeral)

lemma example_index:
  "indextar_loop digest0 example_archive =
     [(hdr_dir, []),
      (hdr_x\<lparr>Size := 20\<rparr>, [65, 65, 65, 65, 0, 0, 0, 0, 0, 0, 0, 0, 0, 0, 0, 0, 0, 0, 0, 0]),
      (hdr_y\<lparr>Size := 20\<rparr>, [66, 66, 66, 66, 0, 0, 0, 0, 0, 0, 0, 0, 0, 0, 0, 0, 0, 0, 0, 0])]"
  by (simp add: example_archive_def hdr_dir_def hdr_x_def hdr_y_def digest0_def sha1_Size_def
        eval_nat_numeral)

lemma example_hex:
  "hex_EncodeToString [65, 65, 65, 65, 0, 0, 0, 0, 0, 0, 0, 0, 0, 0, 0, 0, 0, 0, 0, 0] =
     ''4141414100000000000000000000000000000000''"
  "hex_EncodeToString [66, 66, 66, 66, 0, 0, 0, 0, 0, 0, 0, 0, 0, 0, 0, 0, 0, 0, 0, 0] =
     ''4242424200000000000000000000000000000000''"
  by (simp_all add: hex_EncodeToString_def hextable_def drop_bit_eq_div)

lemmas client_defs = scan_entry_def Let_def copyfile_def os_Stat_def os_Open_def os_Create_def
  io_Copy_from_def getfilehash_def mark_entry_def bitindex_of_def sha1_Size_def

lemmas example_defs = scan_init_def example_hex no_faults_def example_fs_def
  hdr_x_def hdr_y_def hdr_dir_def example_digest hash_x_def hash_y_def tmp_x_def

section \<open>The served file and the status codes\<close>

lemma LastIndex_neg: "(LastIndex xs c < 0) = (c \<notin> set xs)"
  by (induction xs) auto

lemma LastIndex_drop:
  "drop (nat (LastIndex p c + 1)) p = rev (takeWhile (\<lambda>x. x \<noteq> c) (rev p))"
proof (induction p)
  case Nil
  then show ?case by simp
next
  case (Cons x xs)
  show ?case
  proof (cases "c \<in> set xs")
    case True
    then have l: "0 \<le> LastIndex xs c"
      using LastIndex_neg [of xs c] by simp
    then have "nat (LastIndex xs c + 1 + 1) = Suc (nat (LastIndex xs c + 1))"
      by simp
    moreover have "takeWhile (\<lambda>x. x \<noteq> c) (rev xs @ [x]) = takeWhile (\<lambda>x. x \<noteq> c) (rev xs)"
      using True by (intro takeWhile_append1 [of c]) simp_all
    ultimately show ?thesis
      using Cons.IH l by simp
  next
    case False
    then have l: "\<not> 0 \<le> LastIndex xs c"
      using LastIndex_neg [of xs c] by simp
    have "takeWhile (\<lambda>x. x \<noteq> c) (rev xs @ [x]) = rev xs @ takeWhile (\<lambda>x. x \<noteq> c) [x]"
      using False by (intro takeWhile_append2) auto
    then show ?thesis
      using l by simp
  qed
qed

lemma inputfname_final: "inputfname p = tarfolder @ final_segment p"
  by (simp add: inputfname_def final_segment_def LastIndex_drop)

lemma final_segment_no_slash: "CHR ''/'' \<notin> set (final_segment p)"
  using set_takeWhileD [of "CHR ''/''" "\<lambda>c. c \<noteq> CHR ''/''" "rev p"]
  by (auto simp add: final_segment_def)

lemma final_segment_suffix:
  "\<exists>d. p = d @ final_segment p \<and> (d = [] \<or> last d = CHR ''/'')"
proof -
  let ?P = "\<lambda>c. c \<noteq> CHR ''/''"
  have "rev p = takeWhile ?P (rev p) @ dropWhile ?P (rev p)"
    by simp
  then have "p = rev (dropWhile ?P (rev p)) @ final_segment p"
    by (metis final_segment_def rev_append rev_rev_ident)
  moreover have "rev (dropWhile ?P (rev p)) = [] \<or> last (rev (dropWhile ?P (rev p))) = CHR ''/''"
    using hd_dropWhile [of ?P "rev p"] by (auto simp add: last_rev)
  ultimately show ?thesis by blast
qed

lemma handler_same_file:
  assumes "inputfname (URLPath r) = inputfname (URLPath r')"
    and "Method r = Method r'" and "Body r = Body r'"
  shows "handler H disk r = handler H disk r'"
  using assms
  by (simp add: handler_def indextarhandler_def difftarhandler_def cong: gzbody.case_cong)

lemma directly_in_append:
  "directly_in folder (folder @ seg) =
     (seg \<noteq> [] \<and> seg \<noteq> ''.'' \<and> seg \<noteq> ''..'' \<and> CHR ''/'' \<notin> set seg)"
  by (simp add: directly_in_def)

lemma indextarhandler_file:
  "indextarhandler H disk r =
     (case disk (tarfolder @ final_segment (URLPath r)) of
        None \<Rightarrow> Response StatusNotFound (Message ''404 - File not found!'')
      | Some NotGzip \<Rightarrow> Response StatusNotFound (Message ''500 - cannot read tgz file!'')
      | Some (Tgz es) \<Rightarrow> Response StatusOK (Archive (indextar_loop H es))
      | Some (TgzBroken es) \<Rightarrow> Aborted Read_error)"
  by (simp add: indextarhandler_def inputfname_final)

lemma difftarhandler_file:
  "Body r = GzBytes bm \<Longrightarrow>
   difftarhandler disk r =
     (case disk (tarfolder @ final_segment (URLPath r)) of
        None \<Rightarrow> Response StatusNotFound (Message ''404 - File not found!'')
      | Some NotGzip \<Rightarrow> Response StatusNotFound (Message ''500 - cannot read tgz file!'')
      | Some (Tgz es) \<Rightarrow>
          (case difftar_loop bm (0, []) es of
             Inl a \<Rightarrow> Aborted a
           | Inr st \<Rightarrow> Response StatusOK (Archive (snd st)))
      | Some (TgzBroken es) \<Rightarrow>
          (case difftar_loop bm (0, []) es of
             Inl a \<Rightarrow> Aborted a
           | Inr st \<Rightarrow> Aborted Read_error))"
  by (simp add: difftarhandler_def inputfname_final)

lemma handlers_read_one_name:
  assumes "disk (tarfolder @ final_segment (URLPath r)) = disk' (tarfolder @ final_segment (URLPath r))"
  shows "indextarhandler H disk r = indextarhandler H disk' r"
    and "difftarhandler disk r = difftarhandler disk' r"
    and "handler H disk r = handler H disk' r"
proof -
  show 1: "indextarhandler H disk r = indextarhandler H disk' r"
    using assms by (simp add: indextarhandler_def inputfname_final)
  show 2: "difftarhandler disk r = difftarhandler disk' r"
    using assms by (simp add: difftarhandler_def inputfname_final cong: gzbody.case_cong)
  show "handler H disk r = handler H disk' r"
    using 1 2 by (simp add: handler_def)
qed

text \<open>
  C10. For every request, the name both handlers open is the archive folder followed by
  the part of the path after its last \<open>/\<close>: that part holds no \<open>/\<close>, and the path is
  a directory prefix (empty, or ending in \<open>/\<close>) followed by it. The name lies directly
  in the archive folder exactly when that part is a file name (not empty, not \<open>.\<close> or
  \<open>..\<close>). A \<^verbatim>\<open>GET\<close> request is answered with the index of the archive stored under that
  name and a \<^verbatim>\<open>POST\<close> request with its diff; the answer of either handler depends on the
  disk through that name alone; and two requests that differ only in the directory
  prefix get the same answer.
\<close>

theorem served_file:
  "inputfname (URLPath r) = tarfolder @ final_segment (URLPath r) \<and>
   CHR ''/'' \<notin> set (final_segment (URLPath r)) \<and>
   (\<exists>d. URLPath r = d @ final_segment (URLPath r) \<and> (d = [] \<or> last d = CHR ''/'')) \<and>
   directly_in tarfolder (inputfname (URLPath r)) =
     (final_segment (URLPath r) \<noteq> [] \<and> final_segment (URLPath r) \<noteq> ''.'' \<and>
      final_segment (URLPath r) \<noteq> ''..'') \<and>
   (Method r = ''GET'' \<and> disk (tarfolder @ final_segment (URLPath r)) = Some (Tgz es) \<longrightarrow>
      handler H disk r = indextarhandler H disk r \<and>
      indextarhandler H disk r = Response StatusOK (Archive (indextar_loop H es))) \<and>
   (Method r = ''POST'' \<and> Body r = GzBytes bm \<and>
    disk (tarfolder @ final_segment (URLPath r)) = Some (Tgz es) \<longrightarrow>
      handler H disk r = difftarhandler disk r \<and>
      difftarhandler disk r =
        (case difftar_loop bm (0, []) es of
           Inl a \<Rightarrow> Aborted a
         | Inr st \<Rightarrow> Response StatusOK (Archive (snd st)))) \<and>
   (disk (tarfolder @ final_segment (URLPath r)) = disk' (tarfolder @ final_segment (URLPath r)) \<longrightarrow>
      indextarhandler H disk r = indextarhandler H disk' r \<and>
      difftarhandler disk r = difftarhandler disk' r \<and>
      handler H disk r = handler H disk' r) \<and>
   (final_segment (URLPath r) = final_segment (URLPath r') \<and> Method r = Method r' \<and>
    Body r = Body r' \<longrightarrow> handler H disk r = handler H disk r')"
proof -
  have a: "directly_in tarfolder (inputfname (URLPath r)) =
     (final_segment (URLPath r) \<noteq> [] \<and> final_segment (URLPath r) \<noteq> ''.'' \<and>
      final_segment (URLPath r) \<noteq> ''..'')"
    by (simp add: inputfname_final directly_in_append final_segment_no_slash)
  have b: "Method r = ''GET'' \<and> disk (tarfolder @ final_segment (URLPath r)) = Some (Tgz es) \<longrightarrow>
      handler H disk r = indextarhandler H disk r \<and>
      indextarhandler H disk r = Response StatusOK (Archive (indextar_loop H es))"
    by (simp add: handler_def indextarhandler_file)
  have c: "Method r = ''POST'' \<and> Body r = GzBytes bm \<and>
    disk (tarfolder @ final_segment (URLPath r)) = Some (Tgz es) \<longrightarrow>
      handler H disk r = difftarhandler disk r \<and>
      difftarhandler disk r =
        (case difftar_loop bm (0, []) es of
           Inl a \<Rightarrow> Aborted a
         | Inr st \<Rightarrow> Response StatusOK (Archive (snd st)))"
    by (simp add: handler_def difftarhandler_file)
  have d: "disk (tarfolder @ final_segment (URLPath r)) = disk' (tarfolder @ final_segment (URLPath r)) \<longrightarrow>
      indextarhandler H disk r = indextarhandler H disk' r \<and>
      difftarhandler disk r = difftarhandler disk' r \<and>
      handler H disk r = handler H disk' r"
  proof (intro impI conjI)
    assume x: "disk (tarfolder @ final_segment (URLPath r)) = disk' (tarfolder @ final_segment (URLPath r))"
    show "indextarhandler H disk r = indextarhandler H disk' r"
      by (rule handlers_read_one_name(1)) (rule x)
    show "difftarhandler disk r = difftarhandler disk' r"
      by (rule handlers_read_one_name(2)) (rule x)
    show "handler H disk r = handler H disk' r"
      by (rule handlers_read_one_name(3)) (rule x)
  qed
  have e: "final_segment (URLPath r) = final_segment (URLPath r') \<and> Method r = Method r' \<and>
    Body r = Body r' \<longrightarrow> handler H disk r = handler H disk r'"
    using handler_same_file [of r r' H disk] by (simp add: inputfname_final)
  show ?thesis
    using final_segment_suffix [of "URLPath r"] a b c d e
    by (simp only: inputfname_final final_segment_no_slash simp_thms) 
qed

theorem served_file_witness:
  "directly_in tarfolder (inputfname ''/images/v2/image-1234.tgz'') \<and>
   handler digest0 [''/tmp/image-1234.tgz'' \<mapsto> Tgz example_archive]
     \<lparr>Method = ''GET'', URLPath = ''/images/v2/image-1234.tgz'', Body = GzBytes []\<rparr> =
   Response StatusOK (Archive (indextar_loop digest0 example_archive)) \<and>
   handler digest0 [''/tmp/image-1234.tgz'' \<mapsto> Tgz example_archive]
     \<lparr>Method = ''GET'', URLPath = ''/images/v2/image-1234.tgz'', Body = GzBytes []\<rparr> =
   handler digest0 [''/tmp/image-1234.tgz'' \<mapsto> Tgz example_archive, ''/tmp/other.tgz'' \<mapsto> NotGzip]
     \<lparr>Method = ''GET'', URLPath = ''/images/v2/image-1234.tgz'', Body = GzBytes []\<rparr> \<and>
   handler digest0 [''/tmp/image-1234.tgz'' \<mapsto> Tgz example_archive]
     \<lparr>Method = ''GET'', URLPath = ''/images/v2/image-1234.tgz'', Body = GzBytes []\<rparr> =
   handler digest0 [''/tmp/image-1234.tgz'' \<mapsto> Tgz example_archive]
     \<lparr>Method = ''GET'', URLPath = ''/image-1234.tgz'', Body = GzBytes []\<rparr> \<and>
   handler digest0 [''/tmp/image-1234.tgz'' \<mapsto> Tgz example_archive]
     \<lparr>Method = ''POST'', URLPath = ''/images/v2/image-1234.tgz'', Body = GzBytes [64]\<rparr> =
   Response StatusOK (Archive [(hdr_y, [66, 66, 66, 66])])"
proof -
  let ?disk = "[''/tmp/image-1234.tgz'' \<mapsto> Tgz example_archive]"
  let ?get = "\<lparr>Method = ''GET'', URLPath = ''/images/v2/image-1234.tgz'', Body = GzBytes []\<rparr>"
  let ?post = "\<lparr>Method = ''POST'', URLPath = ''/images/v2/image-1234.tgz'', Body = GzBytes [64]\<rparr>"
  have seg: "final_segment ''/images/v2/image-1234.tgz'' = ''image-1234.tgz''"
    "final_segment ''/image-1234.tgz'' = ''image-1234.tgz''"
    by (simp_all add: final_segment_def)
  have walk: "difftar_loop [64] (0, []) example_archive = Inr (2, [(hdr_y, [66, 66, 66, 66])])"
    by (simp add: example_archive_def difftar_entry_def bit_requested_def
          hdr_dir_def hdr_x_def hdr_y_def)
  note g = served_file [where r = ?get and disk = ?disk and es = example_archive and H = digest0
      and disk' = "?disk(''/tmp/other.tgz'' \<mapsto> NotGzip)"
      and r' = "\<lparr>Method = ''GET'', URLPath = ''/image-1234.tgz'', Body = GzBytes []\<rparr>"]
  note p = served_file [where r = ?post and disk = ?disk and es = example_archive and H = digest0
      and bm = "[64]"]
  from g have 1: "directly_in tarfolder (inputfname ''/images/v2/image-1234.tgz'')"
    and 2: "handler digest0 ?disk ?get = Response StatusOK (Archive (indextar_loop digest0 example_archive))"
    and 3: "handler digest0 ?disk ?get = handler digest0 (?disk(''/tmp/other.tgz'' \<mapsto> NotGzip)) ?get"
    and 4: "handler digest0 ?disk ?get =
            handler digest0 ?disk \<lparr>Method = ''GET'', URLPath = ''/image-1234.tgz'', Body = GzBytes []\<rparr>"
    by (auto simp add: seg tarfolder_def inputfname_final)
  from p have 5: "handler digest0 ?disk ?post = Response StatusOK (Archive [(hdr_y, [66, 66, 66, 66])])"
    by (auto simp add: seg tarfolder_def inputfname_final walk)
  from 1 2 3 4 5 show ?thesis
    by simp
qed

text \<open>
  For the path \<open>/\<close> the part after the last \<open>/\<close> is empty: the name opened is the
  archive folder itself, not a name in it, and with the folder on the disk the handler
  answers as it does for a file that is not gzip data.
\<close>

theorem served_file_counterexample:
  "inputfname ''/'' = tarfolder \<and>
   \<not> directly_in tarfolder (inputfname ''/'') \<and>
   indextarhandler digest0 [tarfolder \<mapsto> NotGzip]
     \<lparr>Method = ''GET'', URLPath = ''/'', Body = GzBytes []\<rparr> =
   Response StatusNotFound (Message ''500 - cannot read tgz file!'')"
  by (simp add: inputfname_def directly_in_def indextarhandler_def)

text \<open>
  C9. A request for a file that exists and on which \<^verbatim>\<open>gzip.NewReader\<close> fails: both
  handlers answer with status 404 and the message text \<^verbatim>\<open>500 - cannot read tgz file!\<close>
  (server.go:150-151 and server.go:70-71), not with status 500.
\<close>

theorem unreadable_archive_status:
  "indextarhandler digest0 [''/tmp/image-1234.tgz'' \<mapsto> NotGzip]
     \<lparr>Method = ''GET'', URLPath = ''/image-1234.tgz'', Body = GzBytes []\<rparr> =
   Response 404 (Message ''500 - cannot read tgz file!'') \<and>
   difftarhandler [''/tmp/image-1234.tgz'' \<mapsto> NotGzip]
     \<lparr>Method = ''POST'', URLPath = ''/image-1234.tgz'', Body = GzBytes [64]\<rparr> =
   Response 404 (Message ''500 - cannot read tgz file!'')"
  by (simp add: indextarhandler_def difftarhandler_def inputfname_def tarfolder_def
        StatusNotFound_def)

section \<open>Index generation\<close>

lemma indextar_loop_length: "length (indextar_loop H a) = length a"
  by (induction a) auto

lemma reader_entry_payload:
  "reader_entry (hdr, payload) \<Longrightarrow> \<not> Size hdr > 0 \<Longrightarrow> payload = []"
  by (auto simp add: reader_entry_def split: if_splits)

lemma indextar_loop_nth:
  assumes "\<forall>e \<in> set a. reader_entry e" and "i < length a"
  shows "indextar_loop H a ! i =
           (if counted (a ! i) then ((fst (a ! i))\<lparr>Size := 20\<rparr>, H (snd (a ! i))) else a ! i)"
  using assms
proof (induction a arbitrary: i)
  case Nil
  then show ?case by simp
next
  case (Cons e a)
  obtain hdr payload where e: "e = (hdr, payload)" by (cases e)
  show ?case
  proof (cases i)
    case 0
    have "reader_entry (hdr, payload)" using Cons.prems(1) e by simp
    then show ?thesis
      using 0 reader_entry_payload [of hdr payload]
      by (auto simp add: e counted_def sha1_Size_def)
  next
    case (Suc j)
    then show ?thesis
      using Cons.IH [of j] Cons.prems by (simp add: e)
  qed
qed

text \<open>
  C4. For every archive as the tar reader delivers it, the index has the same number of
  entries in the same order; an entry of kind regular file with size above zero keeps its
  header but for the size, which becomes 20, and its payload becomes the digest of the
  original payload; every other entry is emitted as it is.
\<close>

theorem index_entries:
  assumes "\<forall>e \<in> set a. reader_entry e"
  shows "length (indextar_loop H a) = length a \<and>
         (\<forall>i < length a. indextar_loop H a ! i =
            (if counted (a ! i) then ((fst (a ! i))\<lparr>Size := 20\<rparr>, H (snd (a ! i)))
             else a ! i))"
  using indextar_loop_nth [OF assms] by (simp add: indextar_loop_length)

theorem index_entries_witness:
  "reader_entry (hdr_dir, []) \<and> reader_entry (hdr_x, [65, 65, 65, 65]) \<and>
   reader_entry (hdr_y, [66, 66, 66, 66]) \<and>
   indextar_loop digest0 example_archive =
     [(hdr_dir, []),
      (hdr_x\<lparr>Size := 20\<rparr>, [65, 65, 65, 65, 0, 0, 0, 0, 0, 0, 0, 0, 0, 0, 0, 0, 0, 0, 0, 0]),
      (hdr_y\<lparr>Size := 20\<rparr>, [66, 66, 66, 66, 0, 0, 0, 0, 0, 0, 0, 0, 0, 0, 0, 0, 0, 0, 0, 0])]"
proof -
  have h: "\<forall>e \<in> set example_archive. reader_entry e"
    by (simp add: example_archive_def reader_entry_def isHeaderOnlyType_def
          hdr_dir_def hdr_x_def hdr_y_def)
  have c: "\<not> counted (hdr_dir, [])" "counted (hdr_x, x)" "counted (hdr_y, y)" for x y
    by (simp_all add: counted_def hdr_dir_def hdr_x_def hdr_y_def)
  have l: "length (indextar_loop digest0 example_archive) = 3"
    and n: "\<forall>i < 3. indextar_loop digest0 example_archive ! i =
            (if counted (example_archive ! i)
             then ((fst (example_archive ! i))\<lparr>Size := 20\<rparr>, digest0 (snd (example_archive ! i)))
             else example_archive ! i)"
    using index_entries [OF h, of digest0] by (simp_all add: example_archive_def)
  have "indextar_loop digest0 example_archive =
          map (\<lambda>i. indextar_loop digest0 example_archive ! i) [0..<3]"
    using l by (metis map_nth)
  also have "\<dots> = [(hdr_dir, []), (hdr_x\<lparr>Size := 20\<rparr>, digest0 [65, 65, 65, 65]),
                    (hdr_y\<lparr>Size := 20\<rparr>, digest0 [66, 66, 66, 66])]"
    using n by (simp add: upt_rec example_archive_def c)
  finally show ?thesis
    using h by (simp add: example_digest example_archive_def)
qed

section \<open>Diff serving\<close>

lemma difftar_loop_append:
  "difftar_loop bm st (xs @ ys) =
     (case difftar_loop bm st xs of Inl a \<Rightarrow> Inl a | Inr st' \<Rightarrow> difftar_loop bm st' ys)"
  by (induction xs arbitrary: st) (simp_all split: sum.splits)

lemma difftar_entry_skip:
  "\<not> counted e \<Longrightarrow> difftar_entry bm st e = Inr st"
  by (cases st; cases e) (auto simp add: difftar_entry_def counted_def)

lemma difftar_entry_counted:
  assumes "counted e" and "c < 2 ^ 32" and "c div 8 < length bm" and "length bm < 2 ^ 32"
  shows "difftar_entry bm (of_nat c, out) e =
           Inr (of_nat (Suc c), if unpack bm c then out @ [e] else out)"
proof -
  have u: "unat ((of_nat c :: uint32) div 8) = c div 8"
    using assms(2) by (rule unat_div8)
  have "unat ((of_nat c :: uint32) div 8) \<le> unat (of_nat (length bm) :: uint32)"
    using assms(3,4) by (simp add: u unat_of_nat)
  then have g: "\<not> (of_nat c :: uint32) div 8 > of_nat (length bm)"
    by (simp add: word_less_nat_alt)
  show ?thesis
    using assms(1,3) g u bit_requested_unpack [OF assms(2), of bm]
    by (cases e) (simp add: difftar_entry_def counted_def Let_def)
qed

lemma requested_entries_snoc:
  "requested_entries bm (xs @ [x]) =
     requested_entries bm xs @
       (if counted x \<and> unpack bm (length (filter counted xs)) then [x] else [])"
proof -
  have a: "filter (\<lambda>i. counted ((xs @ [x]) ! i) \<and> unpack bm (counter_at (xs @ [x]) i)) [0..<length xs]
         = filter (\<lambda>i. counted (xs ! i) \<and> unpack bm (counter_at xs i)) [0..<length xs]"
    by (rule filter_cong) (simp_all add: nth_append counter_at_def)
  have b: "map (\<lambda>i. (xs @ [x]) ! i) (filter P [0..<length xs]) = map (\<lambda>i. xs ! i) (filter P [0..<length xs])" for P
    by (rule map_cong) (simp_all add: nth_append)
  have c: "counter_at (xs @ [x]) (length xs) = length (filter counted xs)"
    by (simp add: counter_at_def)
  show ?thesis
    by (simp add: requested_entries_def a b c)
qed

lemma difftar_loop_requested:
  assumes "length (filter counted a) \<le> 8 * length bm"
    and "length (filter counted a) \<le> 2 ^ 32" and "length bm < 2 ^ 32"
  shows "difftar_loop bm (0, []) a =
           Inr (of_nat (length (filter counted a)), requested_entries bm a)"
  using assms(1,2)
proof (induction a rule: rev_induct)
  case Nil
  then show ?case by (simp add: requested_entries_def)
next
  case (snoc x xs)
  have ih: "difftar_loop bm (0, []) xs =
              Inr (of_nat (length (filter counted xs)), requested_entries bm xs)"
    using snoc by simp
  show ?case
  proof (cases "counted x")
    case True
    let ?c = "length (filter counted xs)"
    have c1: "?c < 2 ^ 32" and c0: "?c < length bm * 8"
      using snoc.prems True by simp_all
    have c2: "?c div 8 < length bm"
      using c0 by (simp add: div_less_iff_less_mult)
    show ?thesis
      using difftar_entry_counted [OF True c1 c2 assms(3)] True
      by (simp add: difftar_loop_append ih requested_entries_snoc)
  next
    case False
    then show ?thesis
      by (simp add: difftar_loop_append ih requested_entries_snoc difftar_entry_skip)
  qed
qed

text \<open>
  C3. For every source archive with at most \<open>2 ^ 32\<close> counted entries and every bitmap,
  shorter than \<open>2 ^ 32\<close> bytes, that holds a bit for each of their counter values, the
  diff response is the archive of exactly the counted entries whose bit is 1, each
  with the header and payload it has in the source, in the order of the source.
\<close>

theorem diff_response:
  assumes "disk (inputfname (URLPath r)) = Some (Tgz a)" and "Body r = GzBytes bm"
    and "length (filter counted a) \<le> 8 * length bm"
    and "length (filter counted a) \<le> 2 ^ 32" and "length bm < 2 ^ 32"
  shows "difftarhandler disk r = Response StatusOK (Archive (requested_entries bm a))"
  using assms(1,2) difftar_loop_requested [OF assms(3,4,5)]
  by (simp add: difftarhandler_def)

theorem diff_response_witness:
  "difftarhandler [''/tmp/image-1234.tgz'' \<mapsto> Tgz example_archive]
     \<lparr>Method = ''POST'', URLPath = ''/image-1234.tgz'', Body = GzBytes [64]\<rparr> =
   Response StatusOK (Archive [(hdr_y, [66, 66, 66, 66])])"
proof -
  let ?disk = "[''/tmp/image-1234.tgz'' \<mapsto> Tgz example_archive]"
  let ?r = "\<lparr>Method = ''POST'', URLPath = ''/image-1234.tgz'', Body = GzBytes [64]\<rparr>"
  have 1: "?disk (inputfname (URLPath ?r)) = Some (Tgz example_archive)"
    by (simp add: inputfname_def tarfolder_def)
  have 2: "Body ?r = GzBytes [64]"
    by simp
  have 3: "length (filter counted example_archive) \<le> 8 * length [64 :: byte]"
    by (simp add: example_archive_def counted_def hdr_dir_def hdr_x_def hdr_y_def)
  have 4: "length (filter counted example_archive) \<le> 2 ^ 32"
    by (simp add: example_archive_def counted_def hdr_dir_def hdr_x_def hdr_y_def)
  have 5: "length [64 :: byte] < 2 ^ 32"
    by simp
  have "requested_entries [64] example_archive = [(hdr_y, [66, 66, 66, 66])]"
    by (simp add: requested_entries_def example_archive_def counted_def counter_at_def
          unpack_def hdr_dir_def hdr_x_def hdr_y_def upt_rec)
  with diff_response [of ?disk ?r example_archive "[64]", OF 1 2 3 4 5] show ?thesis
    by simp
qed

text \<open>
  A bitmap that holds no bit for a counter value gets no diff response. On the empty
  bitmap and an archive of one regular file no bit is 1, so the response would be the
  empty archive; the handler stops at server.go:106 instead.
\<close>

theorem diff_response_counterexample:
  "difftarhandler [''/tmp/image-1234.tgz'' \<mapsto> Tgz [(hdr_x, [65, 65, 65, 65])]]
     \<lparr>Method = ''POST'', URLPath = ''/image-1234.tgz'', Body = GzBytes []\<rparr> =
   Aborted Panic_index_out_of_range \<and>
   difftarhandler [''/tmp/image-1234.tgz'' \<mapsto> Tgz [(hdr_x, [65, 65, 65, 65])]]
     \<lparr>Method = ''POST'', URLPath = ''/image-1234.tgz'', Body = GzBytes []\<rparr> \<noteq>
   Response StatusOK (Archive [])"
  by (simp add: difftarhandler_def inputfname_def tarfolder_def difftar_entry_def hdr_x_def)

text \<open>
  C7. A bitmap of one byte and an archive of nine regular files: the ninth has counter
  value 8 and byte index 1, equal to the length of the bitmap. The guard of server.go:100
  lets it pass, and the run ends in the index expression of line 106, not in the
  out-of-bounds exit of line 102.
\<close>

theorem bounds_check_off_by_one:
  "difftar_loop [255] (0, [])
     [(hdr_x, [65, 65, 65, 65]), (hdr_x, [65, 65, 65, 65]), (hdr_x, [65, 65, 65, 65]),
      (hdr_x, [65, 65, 65, 65]), (hdr_x, [65, 65, 65, 65]), (hdr_x, [65, 65, 65, 65]),
      (hdr_x, [65, 65, 65, 65]), (hdr_x, [65, 65, 65, 65]), (hdr_y, [66, 66, 66, 66])] =
   Inl Panic_index_out_of_range"
  by (simp add: difftar_entry_def bit_requested_def hdr_x_def hdr_y_def)

section \<open>The regular-file counter\<close>

lemma counter_at_index: "counter_at (indextar_loop H a) i = counter_at a i"
proof (induction a arbitrary: i)
  case Nil
  then show ?case by (simp add: counter_at_def)
next
  case (Cons e a)
  obtain hdr payload where e: "e = (hdr, payload)" by (cases e)
  show ?case
  proof (cases i)
    case 0
    then show ?thesis by (simp add: counter_at_def)
  next
    case (Suc j)
    have "counted (hd (indextar_loop H (e # a))) = counted e"
      by (simp add: e counted_def sha1_Size_def)
    moreover have "tl (indextar_loop H (e # a)) = indextar_loop H a"
      by (simp add: e)
    moreover have "indextar_loop H (e # a) \<noteq> []"
      by (simp add: e)
    ultimately show ?thesis
      using Cons.IH [of j] Suc
      by (cases "indextar_loop H (e # a)") (simp_all add: counter_at_def)
  qed
qed

lemma difftar_entry_counter:
  "difftar_entry bm st e = Inr st' \<Longrightarrow> fst st' = fst st + (if counted e then 1 else 0)"
  by (cases st; cases e)
     (auto simp add: difftar_entry_def counted_def Let_def split: if_splits)

lemma difftar_loop_counter:
  "difftar_loop bm st es = Inr st' \<Longrightarrow> fst st' = fst st + of_nat (length (filter counted es))"
proof (induction es arbitrary: st)
  case Nil
  then show ?case by simp
next
  case (Cons e es)
  from Cons.prems obtain st1 where 1: "difftar_entry bm st e = Inr st1"
    and 2: "difftar_loop bm st1 es = Inr st'"
    by (auto split: sum.splits)
  show ?case
    using difftar_entry_counter [OF 1] Cons.IH [OF 2] by simp
qed

lemma scan_entry_skip:
  "\<not> counted e \<Longrightarrow> scan_entry H flt ref s e =
     Inr (s\<lparr>trout := trout s @ [(fst e, if Size (fst e) > 0 then snd e else [])]\<rparr>)"
  by (cases e) (auto simp add: scan_entry_def counted_def)

lemma scan_entry_counted:
  assumes "counted e" and "scan_entry H flt ref s e = Inr s'"
  shows "\<exists>u. regularfileindex s' = regularfileindex s + 1 \<and>
              (bitmapbyte s', requestefilesbitmap s') =
                 mark_entry (bitindex_of (regularfileindex s)) u
                   (bitmapbyte s, requestefilesbitmap s)"
  using assms
  by (cases e)
     (auto simp add: scan_entry_def counted_def Let_def
           split: if_splits option.splits sum.splits)

lemma scan_loop_append:
  "scan_loop H flt ref s (xs @ ys) =
     (case scan_loop H flt ref s xs of Inl a \<Rightarrow> Inl a | Inr s' \<Rightarrow> scan_loop H flt ref s' ys)"
  by (induction xs arbitrary: s) (simp_all split: sum.splits)

lemma scan_entry_inv:
  assumes "bm_inv n pre (bitmapbyte s, requestefilesbitmap s)"
    and "regularfileindex s = of_nat n"
    and "scan_entry H flt ref s e = Inr s'"
  shows "\<exists>ms. length ms = length (filter counted [e]) \<and>
              bm_inv (n + length ms) (pre @ ms) (bitmapbyte s', requestefilesbitmap s') \<and>
              regularfileindex s' = of_nat (n + length ms)"
proof (cases "counted e")
  case True
  from scan_entry_counted [OF True assms(3)] obtain u where
    1: "regularfileindex s' = regularfileindex s + 1" and
    2: "(bitmapbyte s', requestefilesbitmap s') =
          mark_entry (bitindex_of (regularfileindex s)) u (bitmapbyte s, requestefilesbitmap s)"
    by blast
  have "bm_inv (Suc n) (pre @ [\<not> u]) (bitmapbyte s', requestefilesbitmap s')"
    using bm_inv_step [OF assms(1), of "\<not> u"] by (simp add: 2 assms(2))
  then show ?thesis
    using True 1 assms(2) by (intro exI [of _ "[\<not> u]"]) simp
next
  case False
  then have "s' = s\<lparr>trout := trout s @ [(fst e, if Size (fst e) > 0 then snd e else [])]\<rparr>"
    using assms(3) by (simp add: scan_entry_skip)
  then show ?thesis
    using assms(1,2) False by (intro exI [of _ "[]"]) simp
qed

lemma scan_loop_inv:
  assumes "bm_inv n pre (bitmapbyte s, requestefilesbitmap s)"
    and "regularfileindex s = of_nat n"
    and "scan_loop H flt ref s es = Inr s'"
  shows "\<exists>ms. length ms = length (filter counted es) \<and>
              bm_inv (n + length ms) (pre @ ms) (bitmapbyte s', requestefilesbitmap s') \<and>
              regularfileindex s' = of_nat (n + length ms)"
  using assms
proof (induction es arbitrary: n pre s)
  case Nil
  then show ?case by simp
next
  case (Cons e es)
  from Cons.prems(3) obtain s1 where 1: "scan_entry H flt ref s e = Inr s1"
    and 2: "scan_loop H flt ref s1 es = Inr s'"
    by (auto split: sum.splits)
  from scan_entry_inv [OF Cons.prems(1,2) 1] obtain ms1 where
    a: "length ms1 = length (filter counted [e])" and
    b: "bm_inv (n + length ms1) (pre @ ms1) (bitmapbyte s1, requestefilesbitmap s1)" and
    c: "regularfileindex s1 = of_nat (n + length ms1)"
    by blast
  from Cons.IH [OF b c 2] obtain ms2 where
    d: "length ms2 = length (filter counted es)" and
    e: "bm_inv (n + length ms1 + length ms2) ((pre @ ms1) @ ms2)
          (bitmapbyte s', requestefilesbitmap s')" and
    f: "regularfileindex s' = of_nat (n + length ms1 + length ms2)"
    by blast
  show ?case
    using a d e f by (intro exI [of _ "ms1 @ ms2"]) (simp add: add.assoc)
qed

lemma scan_loop_counter:
  assumes "scan_loop H flt ref (scan_init fs) es = Inr s"
  shows "regularfileindex s = of_nat (length (filter counted es))"
proof -
  have "bm_inv 0 [] (bitmapbyte (scan_init fs), requestefilesbitmap (scan_init fs))"
    and "regularfileindex (scan_init fs) = of_nat 0"
    by (simp_all add: scan_init_def bm_inv_init)
  from scan_loop_inv [OF this assms] show ?thesis
    by auto
qed

text \<open>
  C1. The regular-file counter is the same in the three phases. At every position \<open>i\<close>
  of an archive, the number of counted entries (kind regular file, size above zero)
  before \<open>i\<close> is the same in the index as in the source; it is the value of the client's
  counter when its scan of the index reaches \<open>i\<close>, and the value of the server's counter
  when its walk of the source reaches \<open>i\<close>.
\<close>

theorem counter_determinism:
  assumes "scan_loop H flt ref (scan_init fs) (take i (indextar_loop H a)) = Inr sc"
    and "difftar_loop bm (0, []) (take i a) = Inr sd"
  shows "counter_at (indextar_loop H a) i = counter_at a i \<and>
         regularfileindex sc = of_nat (counter_at a i) \<and>
         fst sd = of_nat (counter_at a i)"
proof -
  have "regularfileindex sc = of_nat (counter_at (indextar_loop H a) i)"
    using scan_loop_counter [OF assms(1)] by (simp add: counter_at_def)
  moreover have "fst sd = of_nat (counter_at a i)"
    using difftar_loop_counter [OF assms(2)] by (simp add: counter_at_def)
  ultimately show ?thesis
    by (simp add: counter_at_index)
qed

theorem counter_determinism_witness:
  "scan_loop digest0 no_faults ''/ref/'' (scan_init example_fs)
     (take 3 (indextar_loop digest0 example_archive)) = Inr scanned \<and>
   difftar_loop [64] (0, []) (take 3 example_archive) = Inr (2, [(hdr_y, [66, 66, 66, 66])]) \<and>
   counter_at (indextar_loop digest0 example_archive) 3 = counter_at example_archive 3 \<and>
   regularfileindex scanned = of_nat (counter_at example_archive 3) \<and>
   fst (2 :: uint32, [(hdr_y, [66 :: byte, 66, 66, 66])]) = of_nat (counter_at example_archive 3)"
proof -
  have 1: "scan_loop digest0 no_faults ''/ref/'' (scan_init example_fs)
             (take 3 (indextar_loop digest0 example_archive)) = Inr scanned"
    by (simp add: example_index) (simp add: client_defs example_defs scanned_def)
  have 2: "difftar_loop [64] (0, []) (take 3 example_archive) = Inr (2, [(hdr_y, [66, 66, 66, 66])])"
    by (simp add: example_archive_def difftar_entry_def bit_requested_def
          hdr_dir_def hdr_x_def hdr_y_def)
  from counter_determinism [OF 1 2] 1 2 show ?thesis
    by simp
qed

section \<open>The scan of the index\<close>

lemma scan_entry_trout:
  "scan_entry H flt ref s e = Inr s' \<Longrightarrow> \<exists>rest. trout s' = trout s @ rest"
  by (cases e)
     (auto simp add: scan_entry_def Let_def split: if_splits option.splits sum.splits)

lemma scan_loop_trout:
  "scan_loop H flt ref s es = Inr s' \<Longrightarrow> \<exists>rest. trout s' = trout s @ rest"
proof (induction es arbitrary: s)
  case Nil
  then show ?case by simp
next
  case (Cons e es)
  from Cons.prems obtain s1 where 1: "scan_entry H flt ref s e = Inr s1"
    and 2: "scan_loop H flt ref s1 es = Inr s'"
    by (auto split: sum.splits)
  from scan_entry_trout [OF 1] Cons.IH [OF 2] show ?case by auto
qed

lemma getfilehash_Some:
  "getfilehash H flt fs name = Some h \<Longrightarrow>
     \<exists>c. os_Open flt fs name \<noteq> None \<and> io_Copy_from flt fs name = Some c \<and>
         h = hex_EncodeToString (H c)"
  by (auto simp add: getfilehash_def split: option.splits)

lemma stat_copy:
  "os_Stat flt fs name = Some fi \<Longrightarrow> io_Copy_from flt fs name = Some c \<Longrightarrow>
     fs name = Some (RegularFile c) \<and> FileSize fi = int (length c)"
  by (auto simp add: os_Stat_def io_Copy_from_def split: if_splits option.splits fnode.splits)

lemma copyfile_True:
  "copyfile flt fs src dst = (True, fs') \<Longrightarrow>
     \<exists>c. fs' dst = Some (RegularFile c) \<and> (src = dst \<or> fs src = Some (RegularFile c))"
  by (auto simp add: copyfile_def os_Create_def io_Copy_from_def
           split: if_splits option.splits fnode.splits)

lemma scan_entry_satisfied:
  assumes "Typeflag hdr = CHR ''0''" and "Size hdr > 0"
    and "scan_entry H flt ref s1 (hdr, payload) = Inr s2"
    and "tmp = ''/tmp/'' @ hex_EncodeToString (take 20 payload) @ ''.tmp''"
    and "copyfile flt (localfs s1) (ref @ Name hdr) tmp = (True, fs2)"
    and "os_Stat flt fs2 tmp = Some fi"
    and "getfilehash H flt fs2 tmp = Some (hex_EncodeToString (take 20 payload))"
  shows "\<exists>c. io_Copy_from flt fs2 tmp = Some c \<and>
             regularfileindex s2 = regularfileindex s1 + 1 \<and>
             (bitmapbyte s2, requestefilesbitmap s2) =
                mark_entry (bitindex_of (regularfileindex s1)) True
                  (bitmapbyte s1, requestefilesbitmap s1) \<and>
             missingfiles s2 = missingfiles s1 \<and>
             trout s2 = trout s1 @ [(hdr\<lparr>Size := FileSize fi\<rparr>, c)]"
proof -
  from getfilehash_Some [OF assms(7)] obtain c fh where
    o: "os_Open flt fs2 tmp = Some fh" and c: "io_Copy_from flt fs2 tmp = Some c"
    by auto
  have len: "\<not> int (length payload) < sha1_Size"
    using assms(1,2,3) by (auto simp add: scan_entry_def Let_def split: if_splits)
  have "s2 = s1\<lparr>regularfileindex := regularfileindex s1 + 1,
                 bitmapbyte := fst (mark_entry (bitindex_of (regularfileindex s1)) True
                                     (bitmapbyte s1, requestefilesbitmap s1)),
                 requestefilesbitmap := snd (mark_entry (bitindex_of (regularfileindex s1)) True
                                     (bitmapbyte s1, requestefilesbitmap s1)),
                 trout := trout s1 @ [(hdr\<lparr>Size := FileSize fi\<rparr>, c)],
                 localfs := fs2(tmp := None)\<rparr>"
    using assms(3) len assms(5,6,7) o c
    unfolding assms(4)
    by (simp add: scan_entry_def Let_def assms(1,2) sha1_Size_def)
  then show ?thesis
    using c by simp
qed

text \<open>
  C5. A regular-file entry of the index, reached in state \<open>s1\<close> after the entries
  \<open>pre\<close>, whose local file is copied to the scratch file, whose size is read and whose
  hash is computed and equals the hash of the entry: the scan appends to the output the
  entry's header with the size of the local file, followed by the content of the local
  file; it does not count the entry as missing; and in the bitmap of the finished scan
  the bit of the entry's counter value is 0.
\<close>

theorem satisfied_entry:
  assumes run: "scan_index H flt ref fs0 (pre @ (hdr, payload) # post) = Inr sF"
    and before: "scan_loop H flt ref (scan_init fs0) pre = Inr s1"
    and reg: "Typeflag hdr = CHR ''0''" "Size hdr > 0"
    and tmp: "tmp = ''/tmp/'' @ hex_EncodeToString (take 20 payload) @ ''.tmp''"
    and located: "copyfile flt (localfs s1) (ref @ Name hdr) tmp = (True, fs2)"
    and sized: "os_Stat flt fs2 tmp = Some fi"
    and hashed: "getfilehash H flt fs2 tmp = Some (hex_EncodeToString (take 20 payload))"
  shows "\<exists>c s2 rest.
           fs2 tmp = Some (RegularFile c) \<and>
           (ref @ Name hdr = tmp \<or> localfs s1 (ref @ Name hdr) = Some (RegularFile c)) \<and>
           scan_entry H flt ref s1 (hdr, payload) = Inr s2 \<and>
           trout s2 = trout s1 @ [(hdr\<lparr>Size := int (length c)\<rparr>, c)] \<and>
           missingfiles s2 = missingfiles s1 \<and>
           trout sF = trout s2 @ rest \<and>
           \<not> unpack (requestefilesbitmap sF)
                 (counter_at (pre @ (hdr, payload) # post) (length pre))"
proof -
  from run obtain sL where
    loop: "scan_loop H flt ref (scan_init fs0) (pre @ (hdr, payload) # post) = Inr sL"
    and sF: "sF = sL\<lparr>requestefilesbitmap := requestefilesbitmap sL @ [bitmapbyte sL]\<rparr>"
    by (auto simp add: scan_index_def split: sum.splits)
  from loop before obtain s2 where
    step: "scan_entry H flt ref s1 (hdr, payload) = Inr s2"
    and after: "scan_loop H flt ref s2 post = Inr sL"
    by (auto simp add: scan_loop_append split: sum.splits)
  from scan_entry_satisfied [OF reg step tmp located sized hashed] obtain c where
    c: "io_Copy_from flt fs2 tmp = Some c"
    and idx2: "regularfileindex s2 = regularfileindex s1 + 1"
    and bits2: "(bitmapbyte s2, requestefilesbitmap s2) =
                  mark_entry (bitindex_of (regularfileindex s1)) True
                    (bitmapbyte s1, requestefilesbitmap s1)"
    and miss2: "missingfiles s2 = missingfiles s1"
    and out2: "trout s2 = trout s1 @ [(hdr\<lparr>Size := FileSize fi\<rparr>, c)]"
    by blast
  from stat_copy [OF sized c] have tmpfile: "fs2 tmp = Some (RegularFile c)"
    and fsize: "FileSize fi = int (length c)"
    by simp_all
  from copyfile_True [OF located] tmpfile
  have src: "ref @ Name hdr = tmp \<or> localfs s1 (ref @ Name hdr) = Some (RegularFile c)"
    by auto
  from scan_loop_trout [OF after] obtain rest where rest: "trout sL = trout s2 @ rest"
    by blast
  define n where "n = length (filter counted pre)"
  have "bm_inv 0 [] (bitmapbyte (scan_init fs0), requestefilesbitmap (scan_init fs0))"
    and "regularfileindex (scan_init fs0) = of_nat 0"
    by (simp_all add: scan_init_def bm_inv_init)
  from scan_loop_inv [OF this before] obtain ms1 where
    l1: "length ms1 = n"
    and inv1: "bm_inv n ms1 (bitmapbyte s1, requestefilesbitmap s1)"
    and idx1: "regularfileindex s1 = of_nat n"
    by (auto simp add: n_def)
  have inv2: "bm_inv (Suc n) (ms1 @ [False]) (bitmapbyte s2, requestefilesbitmap s2)"
    using bm_inv_step [OF inv1, of False] by (simp add: bits2 idx1)
  have idx2': "regularfileindex s2 = of_nat (Suc n)"
    by (simp add: idx2 idx1)
  from scan_loop_inv [OF inv2 idx2' after] obtain ms2 where
    invL: "bm_inv (Suc n + length ms2) ((ms1 @ [False]) @ ms2)
             (bitmapbyte sL, requestefilesbitmap sL)"
    by blast
  have "Suc n + length ms2 < 8 * length (requestefilesbitmap sL) + 8"
    using invL by (simp add: bm_inv_def)
  then have "n < 8 * length (snd (bitmapbyte sL, requestefilesbitmap sL) @
                 [fst (bitmapbyte sL, requestefilesbitmap sL)])"
    by simp
  from bm_inv_unpack [OF invL this]
  have "\<not> unpack (requestefilesbitmap sL @ [bitmapbyte sL]) n"
    by (simp add: nth_append l1)
  moreover have "counter_at (pre @ (hdr, payload) # post) (length pre) = n"
    by (simp add: counter_at_def n_def)
  ultimately have bit: "\<not> unpack (requestefilesbitmap sF)
      (counter_at (pre @ (hdr, payload) # post) (length pre))"
    by (simp add: sF)
  show ?thesis
    using tmpfile src step out2 miss2 rest bit by (simp add: fsize sF)
qed

theorem satisfied_entry_witness:
  "\<exists>c s2 rest.
     (example_fs(tmp_x \<mapsto> RegularFile [65, 65, 65, 65])) tmp_x = Some (RegularFile c) \<and>
     (''/ref/'' @ Name (hdr_x\<lparr>Size := 20\<rparr>) = tmp_x \<or>
      localfs ((scan_init example_fs)\<lparr>trout := [(hdr_dir, [])]\<rparr>)
        (''/ref/'' @ Name (hdr_x\<lparr>Size := 20\<rparr>)) = Some (RegularFile c)) \<and>
     scan_entry digest0 no_faults ''/ref/'' ((scan_init example_fs)\<lparr>trout := [(hdr_dir, [])]\<rparr>)
       (hdr_x\<lparr>Size := 20\<rparr>, hash_x) = Inr s2 \<and>
     trout s2 = trout ((scan_init example_fs)\<lparr>trout := [(hdr_dir, [])]\<rparr>) @
                  [(hdr_x\<lparr>Size := 20, Size := int (length c)\<rparr>, c)] \<and>
     missingfiles s2 = missingfiles ((scan_init example_fs)\<lparr>trout := [(hdr_dir, [])]\<rparr>) \<and>
     trout (scanned\<lparr>requestefilesbitmap := [64]\<rparr>) = trout s2 @ rest \<and>
     \<not> unpack (requestefilesbitmap (scanned\<lparr>requestefilesbitmap := [64]\<rparr>))
           (counter_at ([(hdr_dir, [])] @ (hdr_x\<lparr>Size := 20\<rparr>, hash_x) #
                          [(hdr_y\<lparr>Size := 20\<rparr>, hash_y)]) (length [(hdr_dir, [] :: byte list)]))"
proof -
  let ?s1 = "(scan_init example_fs)\<lparr>trout := [(hdr_dir, [])]\<rparr>"
  let ?fs2 = "example_fs(tmp_x \<mapsto> RegularFile [65, 65, 65, 65])"
  have run: "scan_index digest0 no_faults ''/ref/'' example_fs
               ([(hdr_dir, [])] @ (hdr_x\<lparr>Size := 20\<rparr>, hash_x) # [(hdr_y\<lparr>Size := 20\<rparr>, hash_y)]) =
             Inr (scanned\<lparr>requestefilesbitmap := [64]\<rparr>)"
    by (simp add: client_defs scan_index_def example_defs scanned_def)
  have before: "scan_loop digest0 no_faults ''/ref/'' (scan_init example_fs) [(hdr_dir, [])] = Inr ?s1"
    by (simp add: client_defs example_defs)
  have reg: "Typeflag (hdr_x\<lparr>Size := 20\<rparr>) = CHR ''0''" "Size (hdr_x\<lparr>Size := 20\<rparr>) > 0"
    by (simp_all add: hdr_x_def)
  have tmp: "tmp_x = ''/tmp/'' @ hex_EncodeToString (take 20 hash_x) @ ''.tmp''"
    by (simp add: example_defs)
  have located: "copyfile no_faults (localfs ?s1) (''/ref/'' @ Name (hdr_x\<lparr>Size := 20\<rparr>)) tmp_x =
                   (True, ?fs2)"
    by (simp add: client_defs example_defs)
  have sized: "os_Stat no_faults ?fs2 tmp_x = Some \<lparr>IsRegular = True, FileSize = 4\<rparr>"
    by (simp add: client_defs example_defs)
  have hashed: "getfilehash digest0 no_faults ?fs2 tmp_x = Some (hex_EncodeToString (take 20 hash_x))"
    by (simp add: client_defs example_defs)
  from satisfied_entry [OF run before reg tmp located sized hashed] show ?thesis .
qed

text \<open>
  C6. A regular-file entry whose local file is copied and on whose scratch file
  \<^verbatim>\<open>os.Stat\<close> then fails: the scan does not go on. Line 244 of client.go sets
  \<^verbatim>\<open>uselocalfile = false\<close>, and line 247 calls \<^verbatim>\<open>fi.Size()\<close> on the nil
  \<^verbatim>\<open>FileInfo\<close>.
\<close>

theorem stat_failure_panics:
  "scan_entry digest0 stat_fault ''/ref/'' (scan_init example_fs) (hdr_x\<lparr>Size := 20\<rparr>, hash_x) =
     Inl Panic_nil_FileInfo"
  by (simp add: client_defs scan_init_def example_hex stat_fault_def example_fs_def hdr_x_def
        hash_x_def)

lemma scan_entry_missing:
  assumes "Typeflag hdr = CHR ''0''" and "Size hdr > 0"
    and "scan_entry H flt ref s1 (hdr, payload) = Inr s2"
    and "tmp = ''/tmp/'' @ hex_EncodeToString (take 20 payload) @ ''.tmp''"
    and "copyfile flt (localfs s1) (ref @ Name hdr) tmp = (ok, fs2)"
    and "\<not> ok \<or> getfilehash H flt fs2 tmp \<noteq> Some (hex_EncodeToString (take 20 payload))"
  shows "regularfileindex s2 = regularfileindex s1 + 1 \<and>
         (bitmapbyte s2, requestefilesbitmap s2) =
            mark_entry (bitindex_of (regularfileindex s1)) False
              (bitmapbyte s1, requestefilesbitmap s1) \<and>
         missingfiles s2 = missingfiles s1 + 1 \<and>
         trout s2 = trout s1"
  using assms(3,5,6) unfolding assms(4)
  by (auto simp add: scan_entry_def Let_def assms(1,2) sha1_Size_def
        split: if_splits option.splits)

text \<open>
  The other causes of a missing entry. A regular-file entry of the index whose local file
  cannot be copied, or whose hash cannot be computed, or whose hash differs from the
  hash of the entry, in a scan that finishes: the scan writes nothing to the output for
  the entry, counts it as missing, and in the bitmap of the finished scan the bit of the
  entry's counter value is 1.
\<close>

lemma missing_entry:
  assumes run: "scan_index H flt ref fs0 (pre @ (hdr, payload) # post) = Inr sF"
    and before: "scan_loop H flt ref (scan_init fs0) pre = Inr s1"
    and reg: "Typeflag hdr = CHR ''0''" "Size hdr > 0"
    and tmp: "tmp = ''/tmp/'' @ hex_EncodeToString (take 20 payload) @ ''.tmp''"
    and copied: "copyfile flt (localfs s1) (ref @ Name hdr) tmp = (ok, fs2)"
    and missing: "\<not> ok \<or>
                  getfilehash H flt fs2 tmp \<noteq> Some (hex_EncodeToString (take 20 payload))"
  shows "\<exists>s2 rest.
           scan_entry H flt ref s1 (hdr, payload) = Inr s2 \<and>
           trout s2 = trout s1 \<and>
           missingfiles s2 = missingfiles s1 + 1 \<and>
           trout sF = trout s1 @ rest \<and>
           unpack (requestefilesbitmap sF)
             (counter_at (pre @ (hdr, payload) # post) (length pre))"
proof -
  from run obtain sL where
    loop: "scan_loop H flt ref (scan_init fs0) (pre @ (hdr, payload) # post) = Inr sL"
    and sF: "sF = sL\<lparr>requestefilesbitmap := requestefilesbitmap sL @ [bitmapbyte sL]\<rparr>"
    by (auto simp add: scan_index_def split: sum.splits)
  from loop before obtain s2 where
    step: "scan_entry H flt ref s1 (hdr, payload) = Inr s2"
    and after: "scan_loop H flt ref s2 post = Inr sL"
    by (auto simp add: scan_loop_append split: sum.splits)
  from scan_entry_missing [OF reg step tmp copied missing] have
    idx2: "regularfileindex s2 = regularfileindex s1 + 1"
    and bits2: "(bitmapbyte s2, requestefilesbitmap s2) =
                  mark_entry (bitindex_of (regularfileindex s1)) False
                    (bitmapbyte s1, requestefilesbitmap s1)"
    and miss2: "missingfiles s2 = missingfiles s1 + 1"
    and out2: "trout s2 = trout s1"
    by simp_all
  from scan_loop_trout [OF after] obtain rest where rest: "trout sL = trout s2 @ rest"
    by blast
  define n where "n = length (filter counted pre)"
  have "bm_inv 0 [] (bitmapbyte (scan_init fs0), requestefilesbitmap (scan_init fs0))"
    and "regularfileindex (scan_init fs0) = of_nat 0"
    by (simp_all add: scan_init_def bm_inv_init)
  from scan_loop_inv [OF this before] obtain ms1 where
    l1: "length ms1 = n"
    and inv1: "bm_inv n ms1 (bitmapbyte s1, requestefilesbitmap s1)"
    and idx1: "regularfileindex s1 = of_nat n"
    by (auto simp add: n_def)
  have inv2: "bm_inv (Suc n) (ms1 @ [True]) (bitmapbyte s2, requestefilesbitmap s2)"
    using bm_inv_step [OF inv1, of True] by (simp add: bits2 idx1)
  have idx2': "regularfileindex s2 = of_nat (Suc n)"
    by (simp add: idx2 idx1)
  from scan_loop_inv [OF inv2 idx2' after] obtain ms2 where
    invL: "bm_inv (Suc n + length ms2) ((ms1 @ [True]) @ ms2)
             (bitmapbyte sL, requestefilesbitmap sL)"
    by blast
  have "Suc n + length ms2 < 8 * length (requestefilesbitmap sL) + 8"
    using invL by (simp add: bm_inv_def)
  then have "n < 8 * length (snd (bitmapbyte sL, requestefilesbitmap sL) @
                 [fst (bitmapbyte sL, requestefilesbitmap sL)])"
    by simp
  from bm_inv_unpack [OF invL this]
  have "unpack (requestefilesbitmap sL @ [bitmapbyte sL]) n"
    by (simp add: nth_append l1)
  moreover have "counter_at (pre @ (hdr, payload) # post) (length pre) = n"
    by (simp add: counter_at_def n_def)
  ultimately have bit: "unpack (requestefilesbitmap sF)
      (counter_at (pre @ (hdr, payload) # post) (length pre))"
    by (simp add: sF)
  show ?thesis
    using step out2 miss2 rest bit by (simp add: sF)
qed

lemma missing_entry_witness:
  "\<exists>s2 rest.
     scan_entry digest0 no_faults ''/ref/''
       ((scan_init example_fs)\<lparr>regularfileindex := 1,
           trout := [(hdr_dir, []), (hdr_x, [65, 65, 65, 65])]\<rparr>)
       (hdr_y\<lparr>Size := 20\<rparr>, hash_y) = Inr s2 \<and>
     trout s2 = trout ((scan_init example_fs)\<lparr>regularfileindex := 1,
                          trout := [(hdr_dir, []), (hdr_x, [65, 65, 65, 65])]\<rparr>) \<and>
     missingfiles s2 = missingfiles ((scan_init example_fs)\<lparr>regularfileindex := 1,
                          trout := [(hdr_dir, []), (hdr_x, [65, 65, 65, 65])]\<rparr>) + 1 \<and>
     trout (scanned\<lparr>requestefilesbitmap := [64]\<rparr>) =
       trout ((scan_init example_fs)\<lparr>regularfileindex := 1,
                 trout := [(hdr_dir, []), (hdr_x, [65, 65, 65, 65])]\<rparr>) @ rest \<and>
     unpack (requestefilesbitmap (scanned\<lparr>requestefilesbitmap := [64]\<rparr>))
       (counter_at ([(hdr_dir, []), (hdr_x\<lparr>Size := 20\<rparr>, hash_x)] @
                      (hdr_y\<lparr>Size := 20\<rparr>, hash_y) # [])
          (length [(hdr_dir, [] :: byte list), (hdr_x\<lparr>Size := 20\<rparr>, hash_x)]))"
proof -
  let ?s1 = "(scan_init example_fs)\<lparr>regularfileindex := 1,
                trout := [(hdr_dir, []), (hdr_x, [65, 65, 65, 65])]\<rparr>"
  let ?tmp = "''/tmp/4242424200000000000000000000000000000000.tmp''"
  have run: "scan_index digest0 no_faults ''/ref/'' example_fs
               ([(hdr_dir, []), (hdr_x\<lparr>Size := 20\<rparr>, hash_x)] @ (hdr_y\<lparr>Size := 20\<rparr>, hash_y) # []) =
             Inr (scanned\<lparr>requestefilesbitmap := [64]\<rparr>)"
    by (simp add: client_defs scan_index_def example_defs scanned_def)
  have before: "scan_loop digest0 no_faults ''/ref/'' (scan_init example_fs)
                  [(hdr_dir, []), (hdr_x\<lparr>Size := 20\<rparr>, hash_x)] = Inr ?s1"
    by (simp add: client_defs example_defs)
  have reg: "Typeflag (hdr_y\<lparr>Size := 20\<rparr>) = CHR ''0''" "Size (hdr_y\<lparr>Size := 20\<rparr>) > 0"
    by (simp_all add: hdr_y_def)
  have tmp: "?tmp = ''/tmp/'' @ hex_EncodeToString (take 20 hash_y) @ ''.tmp''"
    by (simp add: example_defs)
  have copied: "copyfile no_faults (localfs ?s1) (''/ref/'' @ Name (hdr_y\<lparr>Size := 20\<rparr>)) ?tmp =
                  (False, example_fs)"
    by (simp add: client_defs example_defs)
  have missing: "\<not> False \<or> getfilehash digest0 no_faults example_fs ?tmp \<noteq>
                   Some (hex_EncodeToString (take 20 hash_y))"
    by simp
  from missing_entry [OF run before reg tmp copied missing] show ?thesis .
qed

lemma scan_loop_pack:
  "scan_loop H flt ref s es = Inr s' \<Longrightarrow>
     \<exists>ms. length ms = length (filter counted es) \<and>
          (\<forall>rest. pack_loop (regularfileindex s) (bitmapbyte s, requestefilesbitmap s) (ms @ rest) =
                  pack_loop (regularfileindex s') (bitmapbyte s', requestefilesbitmap s') rest)"
proof (induction es arbitrary: s)
  case Nil
  then show ?case by simp
next
  case (Cons e es)
  from Cons.prems obtain s1 where 1: "scan_entry H flt ref s e = Inr s1"
    and 2: "scan_loop H flt ref s1 es = Inr s'"
    by (auto split: sum.splits)
  from Cons.IH [OF 2] obtain ms where
    l: "length ms = length (filter counted es)" and
    p: "\<And>rest. pack_loop (regularfileindex s1) (bitmapbyte s1, requestefilesbitmap s1) (ms @ rest) =
                 pack_loop (regularfileindex s') (bitmapbyte s', requestefilesbitmap s') rest"
    by blast
  show ?case
  proof (cases "counted e")
    case True
    from scan_entry_counted [OF True 1] obtain u where
      "regularfileindex s1 = regularfileindex s + 1" and
      "(bitmapbyte s1, requestefilesbitmap s1) =
         mark_entry (bitindex_of (regularfileindex s)) u (bitmapbyte s, requestefilesbitmap s)"
      by blast
    then show ?thesis
      using l p True by (intro exI [of _ "(\<not> u) # ms"]) simp
  next
    case False
    then have "s1 = s\<lparr>trout := trout s @ [(fst e, if Size (fst e) > 0 then snd e else [])]\<rparr>"
      using 1 by (simp add: scan_entry_skip)
    then show ?thesis
      using l p False by (intro exI [of _ ms]) simp
  qed
qed

text \<open>
  The bitmap of a finished scan is \<open>pack\<close> of one outcome per counted entry of the
  index: what is proved of \<open>pack\<close> above holds of the bitmap the client sends.
\<close>

lemma scan_bitmap_packed:
  assumes "scan_index H flt ref fs0 index = Inr sF"
  shows "\<exists>ms. length ms = length (filter counted index) \<and> requestefilesbitmap sF = pack ms"
proof -
  from assms obtain sL where
    loop: "scan_loop H flt ref (scan_init fs0) index = Inr sL"
    and sF: "sF = sL\<lparr>requestefilesbitmap := requestefilesbitmap sL @ [bitmapbyte sL]\<rparr>"
    by (auto simp add: scan_index_def split: sum.splits)
  from scan_loop_pack [OF loop] obtain ms where
    l: "length ms = length (filter counted index)" and
    p: "pack_loop (regularfileindex (scan_init fs0))
          (bitmapbyte (scan_init fs0), requestefilesbitmap (scan_init fs0)) (ms @ []) =
        pack_loop (regularfileindex sL) (bitmapbyte sL, requestefilesbitmap sL) []"
    by blast
  have "requestefilesbitmap sF = pack ms"
    using p by (simp add: sF pack_def scan_init_def)
  with l show ?thesis by blast
qed

lemma scan_bitmap_packed_witness:
  "scan_index digest0 no_faults ''/ref/'' example_fs (indextar_loop digest0 example_archive) =
     Inr (scanned\<lparr>requestefilesbitmap := [64]\<rparr>) \<and>
   (\<exists>ms. length ms = length (filter counted (indextar_loop digest0 example_archive)) \<and>
         requestefilesbitmap (scanned\<lparr>requestefilesbitmap := [64]\<rparr>) = pack ms)"
proof -
  have 1: "scan_index digest0 no_faults ''/ref/'' example_fs (indextar_loop digest0 example_archive) =
             Inr (scanned\<lparr>requestefilesbitmap := [64]\<rparr>)"
    by (simp add: example_index) (simp add: client_defs scan_index_def example_defs scanned_def)
  from scan_bitmap_packed [OF 1] 1 show ?thesis
    by blast
qed

section \<open>The two sides together\<close>

text \<open>
  The bitmap of a finished scan of the index of an archive, with fewer than
  \<open>2 ^ 32\<close> counted entries, always holds a bit for each of them: on it the server's walk
  of the archive reaches the end, and answers with the entries the bitmap asks for.
\<close>

lemma client_bitmap_served:
  assumes "scan_index H flt ref fs0 (indextar_loop H a) = Inr sF"
    and "length (filter counted a) < 2 ^ 32"
  shows "difftar_loop (requestefilesbitmap sF) (0, []) a =
           Inr (of_nat (length (filter counted a)), requested_entries (requestefilesbitmap sF) a)"
proof -
  from assms(1) obtain sL where
    loop: "scan_loop H flt ref (scan_init fs0) (indextar_loop H a) = Inr sL"
    and sF: "sF = sL\<lparr>requestefilesbitmap := requestefilesbitmap sL @ [bitmapbyte sL]\<rparr>"
    by (auto simp add: scan_index_def split: sum.splits)
  define n where "n = length (filter counted a)"
  have "counter_at (indextar_loop H a) (length a) = counter_at a (length a)"
    by (rule counter_at_index)
  then have cnt: "length (filter counted (indextar_loop H a)) = n"
    by (simp add: counter_at_def n_def indextar_loop_length [symmetric, of a H])
  have "bm_inv 0 [] (bitmapbyte (scan_init fs0), requestefilesbitmap (scan_init fs0))"
    and "regularfileindex (scan_init fs0) = of_nat 0"
    by (simp_all add: scan_init_def bm_inv_init)
  from scan_loop_inv [OF this loop] obtain ms where
    "bm_inv n ms (bitmapbyte sL, requestefilesbitmap sL)"
    by (auto simp add: cnt)
  then have lo: "8 * length (requestefilesbitmap sL) \<le> n"
    and hi: "n < 8 * length (requestefilesbitmap sL) + 8"
    by (simp_all add: bm_inv_def)
  have 1: "n \<le> 8 * length (requestefilesbitmap sF)"
    using hi by (simp add: sF)
  have 2: "n \<le> 2 ^ 32"
    using assms(2) by (simp add: n_def)
  have "8 * length (requestefilesbitmap sL) < 2 ^ 32"
    using lo assms(2) by (simp add: n_def)
  then have 3: "length (requestefilesbitmap sF) < 2 ^ 32"
    by (simp add: sF)
  from difftar_loop_requested [OF 1 [unfolded n_def] 2 [unfolded n_def] 3] show ?thesis .
qed

lemma client_bitmap_served_witness:
  "scan_index digest0 no_faults ''/ref/'' example_fs (indextar_loop digest0 example_archive) =
     Inr (scanned\<lparr>requestefilesbitmap := [64]\<rparr>) \<and>
   difftar_loop [64] (0, []) example_archive = Inr (2, [(hdr_y, [66, 66, 66, 66])])"
proof -
  have 1: "scan_index digest0 no_faults ''/ref/'' example_fs (indextar_loop digest0 example_archive) =
             Inr (scanned\<lparr>requestefilesbitmap := [64]\<rparr>)"
    by (simp add: example_index) (simp add: client_defs scan_index_def example_defs scanned_def)
  have 2: "length (filter counted example_archive) < 2 ^ 32"
    by (simp add: example_archive_def counted_def hdr_dir_def hdr_x_def hdr_y_def)
  have 3: "length (filter counted example_archive) = 2"
    by (simp add: example_archive_def counted_def hdr_dir_def hdr_x_def hdr_y_def)
  have 4: "requested_entries [64] example_archive = [(hdr_y, [66, 66, 66, 66])]"
    by (simp add: requested_entries_def example_archive_def counted_def counter_at_def
          unpack_def hdr_dir_def hdr_x_def hdr_y_def upt_rec)
  from client_bitmap_served [OF 1 2] 1 show ?thesis
    by (simp add: 3 4)
qed

end
